theory Spec2Isabelle
  imports Complex_Main "HOL-Library.Word"
begin

section \<open>The LogUnify logger: data model\<close>

text \<open>
  The embedding follows \<^verbatim>\<open>src/index.ts\<close>. A JavaScript \<^verbatim>\<open>number\<close> is modelled as an
  exact rational (no NaN, no infinities, no rounding), a string as a list of bytes (its
  UTF-8 encoding), a property that may be absent (\<^verbatim>\<open>undefined\<close>) as an \<open>option\<close>.
\<close>

type_synonym number = rat

text \<open>JSON values, as far as the logger builds them.\<close>

datatype json = JString string | JArray "json list" | JObject "(string \<times> json) list"

text \<open>
  An event. The interface \<^verbatim>\<open>LogUnifyEvent\<close> declares \<^verbatim>\<open>getSchemaName\<close>,
  \<^verbatim>\<open>getProjectName\<close> and \<^verbatim>\<open>serialize\<close>; the three fields are what they return.
  \<open>raises e\<close> says that a call of one of the three throws instead (the method throws,
  or the value has no such method: \<^verbatim>\<open>log\<close> accepts any value); the three values are
  not read then. \<^verbatim>\<open>log\<close> also calls \<^verbatim>\<open>toObject\<close>, which the interface does not
  declare: \<open>toObject e = None\<close> says that the event has no such method.
\<close>

record event =
  getSchemaName :: string
  getProjectName :: string
  serialize :: "8 word list"
  toObject :: "json option"
  raises :: bool

text \<open>
  The type \<^verbatim>\<open>Options\<close>. Its optional fields may be absent; \<^verbatim>\<open>apiKey\<close> is declared
  mandatory, but an object built without it carries \<^verbatim>\<open>undefined\<close> there at run time,
  which is \<open>None\<close>.
\<close>

record options =
  o_apiKey :: "string option"
  o_receiverURL :: "string option"
  o_batchInterval :: "number option"
  o_minBatchSize :: "number option"
  o_enableDebugLog :: "bool option"

datatype level = Debug | Info

text \<open>The fields of a \<^verbatim>\<open>LogUnifyLogger\<close> object that are assigned after construction.\<close>

record logger =
  receiverURL :: string
  batchInterval :: number
  minBatchSize :: number
  events :: "event list"
  isSendingEvents :: bool
  lastScheduled :: number
  apiKey :: "string option"
  logger_level :: level

text \<open>The three private fields that are initialised once and never assigned.\<close>

definition maxBulkSize :: nat where
  "maxBulkSize = 50"

definition maxAttempts :: nat where
  "maxAttempts = 3"

definition maxUnsentEvents :: nat where
  "maxUnsentEvents = 5000"

section \<open>Configuration and the singleton\<close>

text \<open>\<^verbatim>\<open>a || b\<close> on an optional number and on an optional string: \<^verbatim>\<open>undefined\<close>, \<open>0\<close> and
  the empty string are falsy.\<close>

definition or_number :: "number option \<Rightarrow> number \<Rightarrow> number" where
  "or_number a b = (case a of None \<Rightarrow> b | Some x \<Rightarrow> if x = 0 then b else x)"

definition or_string :: "string option \<Rightarrow> string \<Rightarrow> string" where
  "or_string a b = (case a of None \<Rightarrow> b | Some x \<Rightarrow> if x = [] then b else x)"

definition configure :: "logger \<Rightarrow> options \<Rightarrow> logger" where
  "configure L opts =
     L\<lparr>apiKey := o_apiKey opts,
       batchInterval := or_number (o_batchInterval opts) (batchInterval L),
       minBatchSize := or_number (o_minBatchSize opts) (minBatchSize L),
       receiverURL := or_string (o_receiverURL opts) (receiverURL L)\<rparr>"

text \<open>The field initialisers, with the level the constructor gives the winston logger.\<close>

definition initial :: "options \<Rightarrow> logger" where
  "initial opts =
     \<lparr>receiverURL = ''http://localhost:8081/api/events/_bulk'',
      batchInterval = 5000,
      minBatchSize = 10,
      events = [],
      isSendingEvents = False,
      lastScheduled = - 1,
      apiKey = o_apiKey opts,
      logger_level = (if o_enableDebugLog opts = Some True then Debug else Info)\<rparr>"

definition constructor :: "options \<Rightarrow> logger" where
  "constructor opts = configure (initial opts) opts"

text \<open>
  The static field \<^verbatim>\<open>instance\<close> holds a reference or \<^verbatim>\<open>undefined\<close>. Objects live in a
  heap, a reference is an index into it, so that "the same instance" can be said.
\<close>

record world =
  heap :: "logger list"
  instance_ref :: "nat option"

definition boot :: world where
  "boot = \<lparr>heap = [], instance_ref = None\<rparr>"

datatype error = NotInitialized | TypeError | AccessorThrew

definition setup_instance :: "world \<Rightarrow> options \<Rightarrow> world \<times> nat" where
  "setup_instance w opts =
     (case instance_ref w of
        None \<Rightarrow>
          (let r = length (heap w)
           in (w\<lparr>heap := heap w @ [constructor opts], instance_ref := Some r\<rparr>, r))
      | Some r \<Rightarrow> (w\<lparr>heap := (heap w)[r := configure (heap w ! r) opts]\<rparr>, r))"

definition get :: "world \<Rightarrow> error + nat" where
  "get w = (case instance_ref w of None \<Rightarrow> Inl NotInitialized | Some r \<Rightarrow> Inr r)"

text \<open>A program's calls of \<^verbatim>\<open>setup\<close>, one after the other, from the start of the process.\<close>

fun setups :: "world \<Rightarrow> options list \<Rightarrow> world" where
  "setups w [] = w"
| "setups w (opts # rest) = setups (fst (setup_instance w opts)) rest"

section \<open>The wire format\<close>

text \<open>\<^verbatim>\<open>Buffer.from(bytes).toString('base64')\<close>: the standard alphabet, padded with \<open>=\<close>.\<close>

definition b64c :: "nat \<Rightarrow> char" where
  "b64c n = ''ABCDEFGHIJKLMNOPQRSTUVWXYZabcdefghijklmnopqrstuvwxyz0123456789+/'' ! n"

fun base64 :: "8 word list \<Rightarrow> string" where
  "base64 (a # b # c # rest) =
     (let n = unat a * 65536 + unat b * 256 + unat c
      in [b64c (n div 262144), b64c (n div 4096 mod 64), b64c (n div 64 mod 64), b64c (n mod 64)]
         @ base64 rest)"
| "base64 [a, b] =
     (let n = unat a * 1024 + unat b * 4
      in [b64c (n div 4096), b64c (n div 64 mod 64), b64c (n mod 64), CHR ''=''])"
| "base64 [a] =
     (let n = unat a * 16
      in [b64c (n div 64), b64c (n mod 64), CHR ''='', CHR ''=''])"
| "base64 [] = []"

text \<open>
  \<^verbatim>\<open>JSON.stringify\<close> on objects, arrays and strings: no white space, properties in
  insertion order, strings quoted with the quotation mark, the backslash and the control
  characters escaped; bytes of 128 and above (the UTF-8 encoding of the other characters)
  pass unchanged.
\<close>

definition hex_digit :: "nat \<Rightarrow> char" where
  "hex_digit n = ''0123456789abcdef'' ! n"

definition quote_char :: "char \<Rightarrow> string" where
  "quote_char c =
     (if c = CHR 0x22 then [CHR 0x5C, CHR 0x22]
      else if c = CHR 0x5C then [CHR 0x5C, CHR 0x5C]
      else if c = CHR 0x08 then [CHR 0x5C, CHR ''b'']
      else if c = CHR 0x0C then [CHR 0x5C, CHR ''f'']
      else if c = CHR 0x0A then [CHR 0x5C, CHR ''n'']
      else if c = CHR 0x0D then [CHR 0x5C, CHR ''r'']
      else if c = CHR 0x09 then [CHR 0x5C, CHR ''t'']
      else if (of_char c :: nat) < 32
        then [CHR 0x5C, CHR ''u'', CHR ''0'', CHR ''0'',
              hex_digit (of_char c div 16), hex_digit (of_char c mod 16)]
      else [c])"

definition quote :: "string \<Rightarrow> string" where
  "quote s = CHR 0x22 # concat (map quote_char s) @ [CHR 0x22]"

fun join :: "string \<Rightarrow> string list \<Rightarrow> string" where
  "join sep [] = []"
| "join sep [x] = x"
| "join sep (x # y # ys) = x @ sep @ join sep (y # ys)"

fun stringify :: "json \<Rightarrow> string" where
  "stringify (JString s) = quote s"
| "stringify (JArray xs) = ''['' @ join '','' (map stringify xs) @ '']''"
| "stringify (JObject ps) =
     ''{'' @ join '','' (map (\<lambda>p. quote (fst p) @ '':'' @ stringify (snd p)) ps) @ ''}''"

record request =
  url :: string
  body :: string
  headers :: "(string \<times> string option) list"

section \<open>What the logger does to the outside\<close>

text \<open>
  The diagnostic messages, each with the value interpolated into its text, and the calls
  the logger makes: to the winston logger (whatever its level, the call is made), to
  \<^verbatim>\<open>setTimeout\<close> (always with the callback that calls \<^verbatim>\<open>sendEvents\<close>) and to
  \<^verbatim>\<open>axios.post\<close>.
\<close>

datatype message =
    ReachedMax nat
  | LoggedEvent json
  | ScheduledIn number
  | ScheduledImmediate
  | Started
  | RetriedFailed nat
  | SentOk nat
  | SentFailed nat

datatype action =
    LoggerError message
  | LoggerDebug message
  | SetTimeout number
  | AxiosPost request

fun is_post :: "action \<Rightarrow> bool" where
  "is_post (AxiosPost r) = True"
| "is_post a = False"

fun is_timeout :: "action \<Rightarrow> bool" where
  "is_timeout (SetTimeout d) = True"
| "is_timeout a = False"

section \<open>One delivery attempt\<close>

text \<open>
  \<^verbatim>\<open>makeRequest\<close> runs up to its \<^verbatim>\<open>await axios.post(...)\<close> in the caller's turn: it
  maps the events, outside its \<^verbatim>\<open>try\<close>, so that an accessor that throws ends the call
  there, and issues the request (\<open>makeRequest_call\<close>, with the request
  \<open>makeRequest_post\<close>). It goes on when the promise settles (\<open>makeRequest_settled\<close>):
  fulfilled, or rejected, which is how axios reports a network error, a timeout and a
  status outside 2xx.
\<close>

datatype outcome = Fulfilled | Rejected

definition postingEvents :: "event list \<Rightarrow> json list" where
  "postingEvents es =
     map (\<lambda>e. JObject [(''serializedEvent'', JString (base64 (serialize e))),
                       (''schemaName'', JString (getSchemaName e)),
                       (''projectName'', JString (getProjectName e))]) es"

definition makeRequest_post :: "logger \<Rightarrow> event list \<Rightarrow> request" where
  "makeRequest_post L es =
     \<lparr>url = receiverURL L,
      body = stringify (JObject [(''events'', JArray (postingEvents es))]),
      headers = [(''Content-Type'', Some ''application/json''), (''X-Auth-Token'', apiKey L)]\<rparr>"

definition makeRequest_call :: "logger \<Rightarrow> event list \<Rightarrow> error + request" where
  "makeRequest_call L es =
     (if list_ex raises es then Inl AccessorThrew else Inr (makeRequest_post L es))"

definition makeRequest_settled :: "event list \<Rightarrow> outcome \<Rightarrow> action list \<times> bool" where
  "makeRequest_settled es oc =
     (case oc of
        Fulfilled \<Rightarrow> ([LoggerDebug (SentOk (length es))], True)
      | Rejected \<Rightarrow> ([LoggerDebug (SentFailed (length es))], False))"

section \<open>The flush cycle\<close>

text \<open>
  \<^verbatim>\<open>sendEvents\<close> is an \<^verbatim>\<open>async\<close> function: it runs until it awaits a request, and is
  resumed when the request settles; between the two, other calls of the logger run. A
  suspended invocation is its local variables (\<open>frame\<close>); \<open>attemptsLeft\<close> is already
  decremented there. An invocation that is over has resolved its promise with
  \<^verbatim>\<open>undefined\<close> or with \<^verbatim>\<open>false\<close>, or has rejected it: \<^verbatim>\<open>sendEvents\<close> awaits
  \<^verbatim>\<open>makeRequest\<close> outside any \<^verbatim>\<open>try\<close>, so what \<^verbatim>\<open>makeRequest\<close> throws ends the
  invocation where it is.
\<close>

record frame =
  bulk :: "event list"
  attemptsLeft :: nat

datatype ret = RetUndefined | RetFalse

datatype status = Suspended frame | Returned ret | Threw error

text \<open>The places of \<^verbatim>\<open>sendEvents\<close> where control can be: the head of the outer loop,
  the head of the inner loop, and the test after the inner loop.\<close>

datatype pc = WhileEvents | WhileAttempts "event list" nat | AfterAttempts nat

function run :: "logger \<Rightarrow> pc \<Rightarrow> logger \<times> action list \<times> status" where
  "run L WhileEvents =
     (if length (events L) > 0
      then run L (WhileAttempts (take maxBulkSize (events L)) maxAttempts)
      else (L\<lparr>isSendingEvents := False\<rparr>, [], Returned RetUndefined))"
| "run L (WhileAttempts b a) =
     (if a > 0
      then (case makeRequest_call L b of
              Inl err \<Rightarrow> (L, [], Threw err)
            | Inr req \<Rightarrow> (L, [AxiosPost req], Suspended \<lparr>bulk = b, attemptsLeft = a - 1\<rparr>))
      else run L (AfterAttempts a))"
| "run L (AfterAttempts a) =
     (if a = 0
      then (L\<lparr>isSendingEvents := False\<rparr>, [LoggerDebug (RetriedFailed maxAttempts)],
            Returned RetFalse)
      else run L WhileEvents)"
  by pat_completeness auto
termination
  by (relation "measure (\<lambda>(L, p). case p of
          AfterAttempts a \<Rightarrow> (if a = 0 then 0 else 3)
        | WhileEvents \<Rightarrow> 2
        | WhileAttempts b a \<Rightarrow> 1)") auto

definition sendEvents :: "logger \<Rightarrow> logger \<times> action list \<times> status" where
  "sendEvents L =
     (if isSendingEvents L then (L, [], Returned RetUndefined)
      else (let (L', as, st) = run (L\<lparr>isSendingEvents := True\<rparr>) WhileEvents
            in (L', LoggerDebug Started # as, st)))"

text \<open>The rest of an invocation suspended with frame \<open>fr\<close>, when its request settles.\<close>

definition resume :: "logger \<Rightarrow> frame \<Rightarrow> outcome \<Rightarrow> logger \<times> action list \<times> status" where
  "resume L fr oc =
     (let (as, ok) = makeRequest_settled (bulk fr) oc
      in if ok
         then (let (L', as', st) =
                     run (L\<lparr>events := drop (length (bulk fr)) (events L)\<rparr>)
                       (AfterAttempts (attemptsLeft fr))
               in (L', as @ as', st))
         else (let (L', as', st) = run L (WhileAttempts (bulk fr) (attemptsLeft fr))
               in (L', as @ as', st)))"

text \<open>One invocation alone, from its call to the end of a list of request outcomes.\<close>

fun drive :: "logger \<Rightarrow> status \<Rightarrow> outcome list \<Rightarrow> logger \<times> action list \<times> status" where
  "drive L (Returned r) ocs = (L, [], Returned r)"
| "drive L (Threw err) ocs = (L, [], Threw err)"
| "drive L (Suspended fr) [] = (L, [], Suspended fr)"
| "drive L (Suspended fr) (oc # ocs) =
     (let (L1, as1, st1) = resume L fr oc;
          (L2, as2, st2) = drive L1 st1 ocs
      in (L2, as1 @ as2, st2))"

definition flush :: "logger \<Rightarrow> outcome list \<Rightarrow> logger \<times> action list \<times> status" where
  "flush L ocs =
     (let (L1, as1, st1) = sendEvents L;
          (L2, as2, st2) = drive L1 st1 ocs
      in (L2, as1 @ as2, st2))"

section \<open>Submitting an event\<close>

text \<open>
  \<^verbatim>\<open>log\<close>, in the three parts of its body. \<open>t1\<close> and \<open>t2\<close> are what the two calls of
  \<^verbatim>\<open>Date.now()\<close> return, in milliseconds. The division and the subtraction of the timer
  test are exact here; the code rounds both to doubles, which can differ from the exact
  values by a rounding error when the quotient is not a double. The result says how the call ends: it throws,
  or it returns, having called \<^verbatim>\<open>sendEvents\<close> (whose invocation is then in the given
  status) or not.
\<close>

definition push_event :: "logger \<Rightarrow> event \<Rightarrow> logger \<times> action list" where
  "push_event L e =
     (let L1 = L\<lparr>events := events L @ [e]\<rparr>
      in if length (events L1) > maxUnsentEvents
         then (L1\<lparr>events := drop 1 (events L1)\<rparr>, [LoggerError (ReachedMax maxUnsentEvents)])
         else (L1, []))"

definition schedule :: "logger \<Rightarrow> int \<Rightarrow> int \<Rightarrow> logger \<times> action list" where
  "schedule L t1 t2 =
     (if lastScheduled L = - 1 \<or> of_int t1 / 1000 - lastScheduled L > batchInterval L
      then (L\<lparr>lastScheduled := of_int t2 / 1000\<rparr>,
            [LoggerDebug (ScheduledIn (batchInterval L / 1000)), SetTimeout (batchInterval L)])
      else (L, []))"

definition trigger :: "logger \<Rightarrow> logger \<times> action list \<times> status option" where
  "trigger L =
     (if of_nat (length (events L)) = minBatchSize L
      then (let (L', as, st) = sendEvents L
            in (L', LoggerDebug ScheduledImmediate # as, Some st))
      else (L, [], None))"

definition log_event ::
  "logger \<Rightarrow> event \<Rightarrow> int \<Rightarrow> int \<Rightarrow> logger \<times> action list \<times> (error + status option)" where
  "log_event L e t1 t2 =
     (let (L1, as1) = push_event L e
      in case toObject e of
           None \<Rightarrow> (L1, as1, Inl TypeError)
         | Some obj \<Rightarrow>
             (let (L2, as2) = schedule L1 t1 t2;
                  (L3, as3, r) = trigger L2
              in (L3, as1 @ [LoggerDebug (LoggedEvent obj)] @ as2 @ as3, Inr r)))"

section \<open>The logger among its callers\<close>

text \<open>
  The run-time around one logger object: the object, the invocations of
  \<^verbatim>\<open>sendEvents\<close> that are suspended (each has one request in flight) and the number of
  timers that are armed. What happens next is chosen from outside: a call of \<^verbatim>\<open>log\<close>,
  a timer that fires, a request that settles, a reconfiguration.
\<close>

record system =
  target :: logger
  waiting :: "frame list"
  timers :: nat

datatype input = Log event int int | TimerFires | Settles nat outcome | Setup options

fun spawned :: "status \<Rightarrow> frame list" where
  "spawned (Suspended fr) = [fr]"
| "spawned (Returned r) = []"
| "spawned (Threw err) = []"

fun spawned_by_log :: "error + status option \<Rightarrow> frame list" where
  "spawned_by_log (Inr (Some st)) = spawned st"
| "spawned_by_log r = []"

fun step :: "system \<Rightarrow> input \<Rightarrow> system \<times> action list" where
  "step s (Log e t1 t2) =
     (let (L, as, r) = log_event (target s) e t1 t2
      in (s\<lparr>target := L, waiting := waiting s @ spawned_by_log r,
            timers := timers s + length (filter is_timeout as)\<rparr>, as))"
| "step s TimerFires =
     (if timers s = 0 then (s, [])
      else (let (L, as, st) = sendEvents (target s)
            in (s\<lparr>target := L, waiting := waiting s @ spawned st, timers := timers s - 1\<rparr>, as)))"
| "step s (Settles i oc) =
     (if i < length (waiting s)
      then (let (L, as, st) = resume (target s) (waiting s ! i) oc
            in (s\<lparr>target := L,
                  waiting := take i (waiting s) @ drop (Suc i) (waiting s) @ spawned st\<rparr>, as))
      else (s, []))"
| "step s (Setup opts) = (s\<lparr>target := configure (target s) opts\<rparr>, [])"

fun exec :: "system \<Rightarrow> input list \<Rightarrow> system \<times> action list" where
  "exec s [] = (s, [])"
| "exec s (i # is) =
     (let (s1, as1) = step s i;
          (s2, as2) = exec s1 is
      in (s2, as1 @ as2))"

definition start :: "options \<Rightarrow> system" where
  "start opts = \<lparr>target = constructor opts, waiting = [], timers = 0\<rparr>"

text \<open>The inputs that settle no request.\<close>

fun calm :: "input \<Rightarrow> bool" where
  "calm (Settles k oc) = False"
| "calm i = True"

fun is_log :: "input \<Rightarrow> bool" where
  "is_log (Log e t1 t2) = True"
| "is_log i = False"

text \<open>The inputs that bring no event with an accessor that throws.\<close>

fun sound :: "input \<Rightarrow> bool" where
  "sound (Log e t1 t2) = (\<not> raises e)"
| "sound i = True"

section \<open>Example inputs\<close>

definition opts_a :: options where
  "opts_a = \<lparr>o_apiKey = Some ''key-1'', o_receiverURL = Some ''https://collector.example/bulk'',
             o_batchInterval = None, o_minBatchSize = Some 20, o_enableDebugLog = Some True\<rparr>"

definition opts_b :: options where
  "opts_b = \<lparr>o_apiKey = None, o_receiverURL = None,
             o_batchInterval = Some 10000, o_minBatchSize = None, o_enableDebugLog = None\<rparr>"

definition opts_min :: options where
  "opts_min = \<lparr>o_apiKey = Some ''key-1'', o_receiverURL = None,
               o_batchInterval = None, o_minBatchSize = None, o_enableDebugLog = None\<rparr>"

definition opts_big :: options where
  "opts_big = \<lparr>o_apiKey = Some ''key-1'', o_receiverURL = None,
               o_batchInterval = None, o_minBatchSize = Some 5001, o_enableDebugLog = None\<rparr>"

text \<open>An event with the declared interface and no more, and events that also have
  \<^verbatim>\<open>toObject\<close>.\<close>

definition ev_declared :: event where
  "ev_declared = \<lparr>getSchemaName = ''click'', getProjectName = ''shop'',
                   serialize = [77, 97, 110], toObject = None, raises = False\<rparr>"

definition ev_full :: "nat \<Rightarrow> event" where
  "ev_full n = \<lparr>getSchemaName = ''click'', getProjectName = ''shop'',
                 serialize = [of_nat n], toObject = Some (JObject [(''id'', JString ''x'')]),
                 raises = False\<rparr>"

text \<open>An event whose \<^verbatim>\<open>serialize\<close> throws.\<close>

definition ev_raising :: event where
  "ev_raising = \<lparr>getSchemaName = ''click'', getProjectName = ''shop'',
                  serialize = [], toObject = Some (JObject [(''id'', JString ''x'')]),
                  raises = True\<rparr>"

definition full_buffer :: logger where
  "full_buffer = (constructor opts_big)\<lparr>events := replicate 5000 (ev_full 1)\<rparr>"

definition nine_events :: logger where
  "nine_events = (constructor opts_min)\<lparr>events := replicate 9 (ev_full 1)\<rparr>"

definition after_first_log :: logger where
  "after_first_log = fst (log_event (constructor opts_min) (ev_full 1) 1000000 1000000)"

definition overflow_calls :: "(event \<times> int \<times> int) list" where
  "overflow_calls = (ev_full 0, 1000, 1000) # replicate 5000 (ev_full 1, 2000, 2000)"

definition fifty_one :: logger where
  "fifty_one = (constructor opts_min)\<lparr>events := replicate 50 (ev_full 1) @ [ev_full 2]\<rparr>"

definition opts_two :: options where
  "opts_two = \<lparr>o_apiKey = Some ''key-1'', o_receiverURL = None,
               o_batchInterval = None, o_minBatchSize = Some 2, o_enableDebugLog = None\<rparr>"

text \<open>Two calls of \<^verbatim>\<open>log\<close>, the second of which reaches the size trigger, and then the
  timer of the first, which fires while the request is in flight.\<close>

definition overlap :: "input list" where
  "overlap = [Log (ev_full 1) 1000000 1000000, Log (ev_full 2) 1000100 1000100, TimerFires]"

text \<open>With a minimal batch size of 2: two events start a cycle, a third is logged while
  the request is retried, and the third attempt succeeds.\<close>

definition third_time_lucky :: "input list" where
  "third_time_lucky =
     [Log (ev_full 1) 1000000 1000000, Log (ev_full 2) 1000100 1000100,
      Settles 0 Rejected, Log (ev_full 3) 1000200 1000200, Settles 0 Rejected,
      Settles 0 Fulfilled]"

text \<open>With a minimal batch size of 2: the second event, whose \<^verbatim>\<open>serialize\<close> throws,
  starts a cycle; a third event and the timer of the first follow.\<close>

definition stuck_run :: "input list" where
  "stuck_run =
     [Log (ev_full 1) 1000000 1000000, Log ev_raising 1000100 1000100,
      Log (ev_full 3) 1000200 1000200, TimerFires]"

text \<open>A logger with a full buffer, and one with 51 events, each suspended on the first
  request for its first batch.\<close>

definition retrying_full :: system where
  "retrying_full =
     \<lparr>target = (constructor opts_min)
        \<lparr>events := ev_full 0 # replicate 4999 (ev_full 1), isSendingEvents := True\<rparr>,
      waiting = [\<lparr>bulk = ev_full 0 # replicate 49 (ev_full 1), attemptsLeft = 2\<rparr>],
      timers = 0\<rparr>"

definition retrying :: system where
  "retrying =
     \<lparr>target = fifty_one\<lparr>isSendingEvents := True\<rparr>,
      waiting = [\<lparr>bulk = replicate 50 (ev_full 1), attemptsLeft = 2\<rparr>],
      timers = 0\<rparr>"

section \<open>The singleton\<close>

lemma setup_instance_existing:
  "instance_ref w = Some r \<Longrightarrow>
   setup_instance w opts = (w\<lparr>heap := (heap w)[r := configure (heap w ! r) opts]\<rparr>, r)"
  by (simp add: setup_instance_def)

lemma setup_instance_absent:
  "instance_ref w = None \<Longrightarrow>
   setup_instance w opts =
     (w\<lparr>heap := heap w @ [constructor opts], instance_ref := Some (length (heap w))\<rparr>,
      length (heap w))"
  by (simp add: setup_instance_def Let_def)

lemma setups_keeps_instance:
  "instance_ref w = Some r \<Longrightarrow> r < length (heap w) \<Longrightarrow>
   instance_ref (setups w calls) = Some r \<and> length (heap (setups w calls)) = length (heap w)"
  by (induction calls arbitrary: w) (simp_all add: setup_instance_existing)

lemma setups_boot:
  "instance_ref (setups boot calls) = (if calls = [] then None else Some 0) \<and>
   length (heap (setups boot calls)) = (if calls = [] then 0 else 1)"
proof (cases calls)
  case Nil
  then show ?thesis by (simp add: boot_def)
next
  case (Cons opts rest)
  have "instance_ref (fst (setup_instance boot opts)) = Some 0"
    and "length (heap (fst (setup_instance boot opts))) = 1"
    by (simp_all add: setup_instance_absent boot_def)
  with setups_keeps_instance [of "fst (setup_instance boot opts)" 0 rest] Cons
  show ?thesis by simp
qed

text \<open>
  C9. In the world \<open>w\<close> a process reaches by any calls of \<^verbatim>\<open>setup\<close>, \<^verbatim>\<open>get\<close> throws the
  "not initialized" error exactly when there was no call, and returns the instance
  otherwise. A further \<^verbatim>\<open>setup\<close> returns the reference that \<^verbatim>\<open>get\<close> then returns: to
  a new object built by the constructor when there was none, and otherwise to the one
  \<^verbatim>\<open>get\<close> returned before, reconfigured in place, with no object allocated.
\<close>

theorem singleton_lifecycle:
  assumes "w = setups boot calls" and "setup_instance w opts = (w', r)"
  shows "(get w = Inl NotInitialized \<longleftrightarrow> calls = []) \<and>
         get w' = Inr r \<and> r < length (heap w') \<and>
         (calls = [] \<longrightarrow> heap w' ! r = constructor opts) \<and>
         (calls \<noteq> [] \<longrightarrow> get w = Inr r \<and> length (heap w') = length (heap w) \<and>
            heap w' ! r = configure (heap w ! r) opts)"
proof (cases "calls = []")
  case True
  with assms have "instance_ref w = None" and "heap w = []"
    using setups_boot [of calls] by simp_all
  with assms True show ?thesis
    by (auto simp: setup_instance_absent get_def)
next
  case False
  with assms have "instance_ref w = Some 0" and "length (heap w) = 1"
    using setups_boot [of calls] by simp_all
  with assms False show ?thesis
    by (auto simp: setup_instance_existing get_def)
qed

theorem singleton_lifecycle_witness:
  "get (setups boot []) = Inl NotInitialized \<and>
   get (setups boot [opts_a]) = Inr 0 \<and>
   get (setups boot [opts_a, opts_b]) = Inr 0 \<and>
   snd (setup_instance (setups boot [opts_a]) opts_b) = 0 \<and>
   heap (setups boot [opts_a, opts_b]) ! 0 = configure (constructor opts_a) opts_b"
proof -
  let ?w = "\<lparr>heap = [constructor opts_a], instance_ref = Some 0\<rparr>"
  let ?w' = "\<lparr>heap = [configure (constructor opts_a) opts_b], instance_ref = Some 0\<rparr>"
  have a: "setup_instance boot opts_a = (?w, 0)"
    by (simp add: boot_def setup_instance_def)
  have b: "setup_instance ?w opts_b = (?w', 0)"
    by (simp add: setup_instance_def)
  have c: "boot = setups boot []" and d: "?w = setups boot [opts_a]"
    by (simp_all add: a)
  from singleton_lifecycle [OF c a] singleton_lifecycle [OF d b] show ?thesis
    by (simp add: a b)
qed

section \<open>Reconfiguration\<close>

text \<open>
  C5, as the claim states it, fails: after a first \<^verbatim>\<open>setup\<close> with an API key, a second
  one whose options hold \<^verbatim>\<open>batchInterval: 10000\<close> and nothing else leaves the logger
  without its key, since \<^verbatim>\<open>configure\<close> assigns \<^verbatim>\<open>options.apiKey\<close> whatever it is.
\<close>

theorem setup_twice_counterexample:
  "o_apiKey opts_b = None \<and> o_receiverURL opts_b = None \<and> o_minBatchSize opts_b = None \<and>
   o_enableDebugLog opts_b = None \<and> o_batchInterval opts_b = Some 10000 \<and>
   apiKey (heap (setups boot [opts_a]) ! 0) = Some ''key-1'' \<and>
   apiKey (heap (setups boot [opts_a, opts_b]) ! 0) = None"
  by (simp add: opts_a_def opts_b_def boot_def setup_instance_def constructor_def configure_def
      initial_def or_number_def or_string_def)

text \<open>
  C5, amended. A \<^verbatim>\<open>setup\<close> on an existing instance returns that instance; its API key
  becomes the one of the new options (none, if they hold none); its batch interval, its
  minimal batch size and its receiver URL change exactly to the values that are present
  and truthy in the new options (not \<open>0\<close>, not the empty string) and otherwise stay;
  the buffer, the sending flag, the last scheduling and the log level stay, so that
  \<^verbatim>\<open>enableDebugLog\<close> has no effect then.
\<close>

theorem reconfigure_frame:
  assumes "instance_ref w = Some r" and "r < length (heap w)"
    and "setup_instance w opts = (w', r')"
  shows "r' = r \<and> instance_ref w' = Some r \<and>
    apiKey (heap w' ! r) = o_apiKey opts \<and>
    batchInterval (heap w' ! r) =
      (if o_batchInterval opts \<in> {None, Some 0} then batchInterval (heap w ! r)
       else the (o_batchInterval opts)) \<and>
    minBatchSize (heap w' ! r) =
      (if o_minBatchSize opts \<in> {None, Some 0} then minBatchSize (heap w ! r)
       else the (o_minBatchSize opts)) \<and>
    receiverURL (heap w' ! r) =
      (if o_receiverURL opts \<in> {None, Some []} then receiverURL (heap w ! r)
       else the (o_receiverURL opts)) \<and>
    events (heap w' ! r) = events (heap w ! r) \<and>
    isSendingEvents (heap w' ! r) = isSendingEvents (heap w ! r) \<and>
    lastScheduled (heap w' ! r) = lastScheduled (heap w ! r) \<and>
    logger_level (heap w' ! r) = logger_level (heap w ! r)"
  using assms
  by (auto simp: setup_instance_existing configure_def or_number_def or_string_def
      split: option.splits)

theorem reconfigure_frame_witness:
  "batchInterval (heap (setups boot [opts_a, opts_b]) ! 0) = 10000 \<and>
   minBatchSize (heap (setups boot [opts_a, opts_b]) ! 0) = 20 \<and>
   receiverURL (heap (setups boot [opts_a, opts_b]) ! 0) = ''https://collector.example/bulk'' \<and>
   apiKey (heap (setups boot [opts_a, opts_b]) ! 0) = o_apiKey opts_b"
proof -
  let ?w = "\<lparr>heap = [constructor opts_a], instance_ref = Some 0\<rparr>"
  let ?w' = "\<lparr>heap = [configure (constructor opts_a) opts_b], instance_ref = Some 0\<rparr>"
  have b: "fst (setup_instance boot opts_a) = ?w"
    by (simp add: boot_def setup_instance_def)
  have e: "setup_instance ?w opts_b = (?w', 0)"
    by (simp add: setup_instance_def)
  have c: "batchInterval (constructor opts_a) = 5000 \<and> minBatchSize (constructor opts_a) = 20 \<and>
     receiverURL (constructor opts_a) = ''https://collector.example/bulk''"
    by (simp add: constructor_def configure_def initial_def opts_a_def or_number_def or_string_def)
  have d: "o_batchInterval opts_b = Some 10000 \<and> o_minBatchSize opts_b = None \<and>
     o_receiverURL opts_b = None"
    by (simp add: opts_b_def)
  have "instance_ref ?w = Some 0" and "0 < length (heap ?w)"
    by simp_all
  from reconfigure_frame [OF this e] show ?thesis
    by (simp add: b e c d)
qed

section \<open>What a turn changes\<close>

lemma raises_ev_full: "raises (ev_full n) = False"
  by (simp add: ev_full_def)

lemma run_events: "events (fst (run L p)) = events L"
  by (induction L p rule: run.induct) (simp_all add: makeRequest_call_def)

lemma run_config:
  "run L p = (L', as, st) \<Longrightarrow> L' = L \<or> L' = L\<lparr>isSendingEvents := False\<rparr>"
  by (induction L p arbitrary: L' as st rule: run.induct)
    (auto simp: makeRequest_call_def split: if_splits)

lemma sendEvents_config:
  "sendEvents L = (L', as, st) \<Longrightarrow>
   L' = L \<or> L' = L\<lparr>isSendingEvents := True\<rparr> \<or> L' = L\<lparr>isSendingEvents := False\<rparr>"
  by (auto simp: sendEvents_def simp del: run.simps split: if_splits prod.splits
      dest!: run_config)

lemma push_event_eq:
  "push_event L e =
     (L\<lparr>events := (if maxUnsentEvents < length (events L @ [e]) then drop 1 (events L @ [e])
                   else events L @ [e])\<rparr>,
      if maxUnsentEvents < length (events L @ [e]) then [LoggerError (ReachedMax maxUnsentEvents)]
      else [])"
  by (simp add: push_event_def Let_def)

lemma schedule_config:
  "schedule L t1 t2 = (L', as) \<Longrightarrow> L' = L \<or> L' = L\<lparr>lastScheduled := of_int t2 / 1000\<rparr>"
  by (auto simp: schedule_def split: if_splits)

lemma trigger_config:
  "trigger L = (L', as, r) \<Longrightarrow>
   L' = L \<or> L' = L\<lparr>isSendingEvents := True\<rparr> \<or> L' = L\<lparr>isSendingEvents := False\<rparr>"
  by (auto simp: trigger_def split: if_splits prod.splits dest!: sendEvents_config)

lemma trigger_taken:
  "trigger L = (L', as, r) \<Longrightarrow>
   ((\<exists>st. r = Some st) \<longleftrightarrow> of_nat (length (events L)) = minBatchSize L) \<and>
   (LoggerDebug ScheduledImmediate \<in> set as \<longleftrightarrow> of_nat (length (events L)) = minBatchSize L)"
  by (auto simp: trigger_def sendEvents_def split: if_splits prod.splits)

lemma log_event_events:
  "events (fst (log_event L e t1 t2)) = events (fst (push_event L e))"
proof (cases "toObject e")
  case None
  then show ?thesis by (simp add: log_event_def split: prod.splits)
next
  case (Some obj)
  obtain L1 as1 where p: "push_event L e = (L1, as1)" by force
  obtain L2 as2 where s: "schedule L1 t1 t2 = (L2, as2)" by force
  obtain L3 as3 r where t: "trigger L2 = (L3, as3, r)" using prod_cases3 by blast
  from schedule_config [OF s] have "events L2 = events L1" by auto
  moreover from trigger_config [OF t] have "events L3 = events L2" by auto
  ultimately show ?thesis using Some p s t by (simp add: log_event_def)
qed

section \<open>The call of toObject\<close>

text \<open>
  C10. \<^verbatim>\<open>log\<close> calls \<^verbatim>\<open>event.toObject()\<close> on every call, to build the argument of
  its debug message. For an event without that method, as every event with the declared
  interface and no more, the call of \<^verbatim>\<open>log\<close> ends with a TypeError: the event is then
  in the buffer (after the eviction of the oldest one, if the bound was passed), and
  nothing else of the logger has changed; no timer is armed, \<^verbatim>\<open>sendEvents\<close> is not
  called. For an event with the method, its result is handed to the debug log and the
  call returns.
\<close>

theorem log_needs_toObject:
  "(toObject e = None \<longrightarrow>
      log_event L e t1 t2 =
        (L\<lparr>events := (if maxUnsentEvents < length (events L @ [e]) then drop 1 (events L @ [e])
                      else events L @ [e])\<rparr>,
         if maxUnsentEvents < length (events L @ [e])
         then [LoggerError (ReachedMax maxUnsentEvents)] else [],
         Inl TypeError)) \<and>
   (\<forall>obj. toObject e = Some obj \<longrightarrow>
      LoggerDebug (LoggedEvent obj) \<in> set (fst (snd (log_event L e t1 t2))) \<and>
      (\<exists>r. snd (snd (log_event L e t1 t2)) = Inr r))"
  by (auto simp: log_event_def push_event_eq split: prod.splits)

theorem log_needs_toObject_witness:
  "log_event (constructor opts_min) ev_declared 1000000 1000000 =
     ((constructor opts_min)\<lparr>events := [ev_declared]\<rparr>, [], Inl TypeError) \<and>
   LoggerDebug (LoggedEvent (JObject [(''id'', JString ''x'')]))
     \<in> set (fst (snd (log_event (constructor opts_min) (ev_full 2) 1000000 1000000)))"
proof -
  have a: "toObject ev_declared = None"
    and b: "toObject (ev_full 2) = Some (JObject [(''id'', JString ''x'')])"
    by (simp_all add: ev_declared_def ev_full_def)
  have c: "events (constructor opts_min) = []"
    by (simp add: constructor_def configure_def initial_def)
  from log_needs_toObject [of ev_declared "constructor opts_min" 1000000 1000000]
    log_needs_toObject [of "ev_full 2" "constructor opts_min" 1000000 1000000]
  show ?thesis by (simp add: a b c maxUnsentEvents_def)
qed

lemma constructor_opts_min:
  "constructor opts_min =
     \<lparr>receiverURL = ''http://localhost:8081/api/events/_bulk'', batchInterval = 5000,
      minBatchSize = 10, events = [], isSendingEvents = False, lastScheduled = - 1,
      apiKey = Some ''key-1'', logger_level = Info\<rparr>"
  by (simp add: constructor_def configure_def initial_def opts_min_def or_number_def or_string_def)

lemma constructor_opts_big:
  "constructor opts_big =
     \<lparr>receiverURL = ''http://localhost:8081/api/events/_bulk'', batchInterval = 5000,
      minBatchSize = 5001, events = [], isSendingEvents = False, lastScheduled = - 1,
      apiKey = Some ''key-1'', logger_level = Info\<rparr>"
  by (simp add: constructor_def configure_def initial_def opts_big_def or_number_def or_string_def)

lemma constructor_opts_two:
  "constructor opts_two =
     \<lparr>receiverURL = ''http://localhost:8081/api/events/_bulk'', batchInterval = 5000,
      minBatchSize = 2, events = [], isSendingEvents = False, lastScheduled = - 1,
      apiKey = Some ''key-1'', logger_level = Info\<rparr>"
  by (simp add: constructor_def configure_def initial_def opts_two_def or_number_def or_string_def)

section \<open>The size trigger\<close>

text \<open>
  C6, as the claim states it, fails. With \<^verbatim>\<open>minBatchSize\<close> set to 5001 and 5000 events
  in the buffer, the buffer holds 5001 events after the push, but one is evicted before
  the test, which sees 5000: no immediate flush. And with nine events in the buffer and
  the default \<^verbatim>\<open>minBatchSize\<close> of 10, an event without \<^verbatim>\<open>toObject\<close> brings the buffer
  to 10, but \<^verbatim>\<open>log\<close> throws before the test.
\<close>

theorem immediate_flush_counterexample:
  "of_nat (length (events full_buffer @ [ev_full 2])) = minBatchSize full_buffer \<and>
   snd (snd (log_event full_buffer (ev_full 2) 1000000 1000000)) = Inr None \<and>
   of_nat (length (events nine_events @ [ev_declared])) = minBatchSize nine_events \<and>
   snd (snd (log_event nine_events ev_declared 1000000 1000000)) = Inl TypeError"
  by (simp add: full_buffer_def nine_events_def constructor_opts_min constructor_opts_big
      log_event_def push_event_eq maxUnsentEvents_def schedule_def trigger_def
      ev_full_def ev_declared_def)

text \<open>
  C6, amended. In a call of \<^verbatim>\<open>log\<close> that gets past \<^verbatim>\<open>event.toObject()\<close>,
  \<^verbatim>\<open>sendEvents\<close> is called at once exactly when the length of the buffer, after the push
  and the eviction that may follow it, is equal to \<^verbatim>\<open>minBatchSize\<close>; at any other
  length, above as well as below, the call returns without it.
\<close>

theorem immediate_flush_exact:
  assumes "toObject e = Some obj" and "log_event L e t1 t2 = (L', as, r)"
  shows "((\<exists>st. r = Inr (Some st)) \<longleftrightarrow> of_nat (length (events L')) = minBatchSize L') \<and>
         (of_nat (length (events L')) \<noteq> minBatchSize L' \<longrightarrow> r = Inr None) \<and>
         (LoggerDebug ScheduledImmediate \<in> set as
            \<longleftrightarrow> of_nat (length (events L')) = minBatchSize L') \<and>
         minBatchSize L' = minBatchSize L \<and>
         events L' = (if maxUnsentEvents < length (events L @ [e]) then drop 1 (events L @ [e])
                      else events L @ [e])"
proof -
  obtain L1 as1 where p: "push_event L e = (L1, as1)" by force
  obtain L2 as2 where s: "schedule L1 t1 t2 = (L2, as2)" by force
  obtain L3 as3 r3 where t: "trigger L2 = (L3, as3, r3)" using prod_cases3 by blast
  from assms p s t have eq: "L' = L3" "r = Inr r3"
    "as = as1 @ [LoggerDebug (LoggedEvent obj)] @ as2 @ as3"
    by (simp_all add: log_event_def)
  from p have p': "minBatchSize L1 = minBatchSize L"
    "events L1 = (if maxUnsentEvents < length (events L @ [e]) then drop 1 (events L @ [e])
                      else events L @ [e])"
    by (auto simp: push_event_eq)
  from schedule_config [OF s] have s': "events L2 = events L1" "minBatchSize L2 = minBatchSize L1"
    by auto
  from s have s'': "LoggerDebug ScheduledImmediate \<notin> set as2"
    by (auto simp: schedule_def split: if_splits)
  from p have p'': "LoggerDebug ScheduledImmediate \<notin> set as1"
    by (auto simp: push_event_eq split: if_splits)
  from trigger_config [OF t] have t': "events L3 = events L2" "minBatchSize L3 = minBatchSize L2"
    by auto
  from trigger_taken [OF t] eq p' s' s'' p'' t' show ?thesis
    by auto
qed

theorem immediate_flush_exact_witness:
  "(\<exists>st. snd (snd (log_event nine_events (ev_full 2) 1000000 1000000)) = Inr (Some st)) \<and>
   events (fst (log_event nine_events (ev_full 2) 1000000 1000000))
     = replicate 9 (ev_full 1) @ [ev_full 2] \<and>
   snd (snd (log_event (constructor opts_min) (ev_full 2) 1000000 1000000)) = Inr None"
proof -
  have a: "toObject (ev_full 2) = Some (JObject [(''id'', JString ''x'')])"
    by (simp add: ev_full_def)
  have b: "log_event nine_events (ev_full 2) 1000000 1000000 =
     (fst (log_event nine_events (ev_full 2) 1000000 1000000),
      fst (snd (log_event nine_events (ev_full 2) 1000000 1000000)),
      snd (snd (log_event nine_events (ev_full 2) 1000000 1000000)))"
    by simp
  have c: "log_event (constructor opts_min) (ev_full 2) 1000000 1000000 =
     (fst (log_event (constructor opts_min) (ev_full 2) 1000000 1000000),
      fst (snd (log_event (constructor opts_min) (ev_full 2) 1000000 1000000)),
      snd (snd (log_event (constructor opts_min) (ev_full 2) 1000000 1000000)))"
    by simp
  have d: "events nine_events = replicate 9 (ev_full 1)" "minBatchSize nine_events = 10"
    "events (constructor opts_min) = []" "minBatchSize (constructor opts_min) = 10"
    by (simp_all add: nine_events_def constructor_opts_min)
  from immediate_flush_exact [OF a b] immediate_flush_exact [OF a c] show ?thesis
    by (simp add: d maxUnsentEvents_def)
qed

section \<open>The flush timer\<close>

lemma run_no_timeout: "filter is_timeout (fst (snd (run L p))) = []"
  by (induction L p rule: run.induct) (simp_all add: makeRequest_call_def)

lemma sendEvents_no_timeout: "filter is_timeout (fst (snd (sendEvents L))) = []"
  using run_no_timeout [of "L\<lparr>isSendingEvents := True\<rparr>" WhileEvents]
  by (auto simp: sendEvents_def simp del: run.simps split: prod.splits)

lemma trigger_no_timeout: "filter is_timeout (fst (snd (trigger L))) = []"
  using sendEvents_no_timeout [of L]
  by (auto simp: trigger_def split: prod.splits)

lemma log_event_arms:
  assumes "toObject e = Some obj"
  shows "filter is_timeout (fst (snd (log_event L e t1 t2))) =
           (if lastScheduled L = - 1 \<or> batchInterval L < of_int t1 / 1000 - lastScheduled L
            then [SetTimeout (batchInterval L)] else [])"
    and "lastScheduled (fst (log_event L e t1 t2)) =
           (if lastScheduled L = - 1 \<or> batchInterval L < of_int t1 / 1000 - lastScheduled L
            then of_int t2 / 1000 else lastScheduled L)"
proof -
  obtain L1 as1 where p: "push_event L e = (L1, as1)" by force
  obtain L2 as2 where s: "schedule L1 t1 t2 = (L2, as2)" by force
  obtain L3 as3 r3 where t: "trigger L2 = (L3, as3, r3)" using prod_cases3 by blast
  from p have p': "lastScheduled L1 = lastScheduled L" "batchInterval L1 = batchInterval L"
    "filter is_timeout as1 = []"
    by (auto simp: push_event_eq)
  from trigger_config [OF t] have t': "lastScheduled L3 = lastScheduled L2" by auto
  from trigger_no_timeout [of L2] t have t'': "filter is_timeout as3 = []" by simp
  from assms p s t p' t' t''
  show "filter is_timeout (fst (snd (log_event L e t1 t2))) =
           (if lastScheduled L = - 1 \<or> batchInterval L < of_int t1 / 1000 - lastScheduled L
            then [SetTimeout (batchInterval L)] else [])"
    and "lastScheduled (fst (log_event L e t1 t2)) =
           (if lastScheduled L = - 1 \<or> batchInterval L < of_int t1 / 1000 - lastScheduled L
            then of_int t2 / 1000 else lastScheduled L)"
    by (auto simp: log_event_def schedule_def split: if_splits)
qed

lemma after_first_log_eq:
  "log_event (constructor opts_min) (ev_full 1) 1000000 1000000 =
     ((constructor opts_min)\<lparr>events := [ev_full 1], lastScheduled := 1000\<rparr>,
      [LoggerDebug (LoggedEvent (JObject [(''id'', JString ''x'')])),
       LoggerDebug (ScheduledIn 5), SetTimeout 5000],
      Inr None)"
  by (simp add: constructor_opts_min log_event_def push_event_eq maxUnsentEvents_def
      schedule_def trigger_def ev_full_def)

text \<open>
  C4. The code compares seconds with milliseconds: \<^verbatim>\<open>lastScheduled\<close> and the elapsed time
  are in seconds (\<^verbatim>\<open>Date.now() / 1000\<close>), \<^verbatim>\<open>batchInterval\<close> is in milliseconds (it is
  the delay given to \<^verbatim>\<open>setTimeout\<close>, and the message divides it by 1000 to print
  seconds). With the default interval of 5000 ms, a first call at 1000000 ms arms a timer
  and records 1000 s; a second call 6000 ms later, when more than the interval has
  elapsed, arms no timer and leaves the record as it is.
\<close>

theorem timer_not_rearmed:
  "fst (snd (log_event (constructor opts_min) (ev_full 1) 1000000 1000000)) =
     [LoggerDebug (LoggedEvent (JObject [(''id'', JString ''x'')])),
      LoggerDebug (ScheduledIn 5), SetTimeout 5000] \<and>
   lastScheduled after_first_log = 1000 \<and>
   batchInterval after_first_log = 5000 \<and>
   batchInterval after_first_log < 1006000 - 1000000 \<and>
   log_event after_first_log (ev_full 2) 1006000 1006000 =
     (after_first_log\<lparr>events := [ev_full 1, ev_full 2]\<rparr>,
      [LoggerDebug (LoggedEvent (JObject [(''id'', JString ''x'')]))], Inr None)"
  by (simp add: after_first_log_def after_first_log_eq)
    (simp add: constructor_opts_min log_event_def push_event_eq maxUnsentEvents_def
      schedule_def trigger_def ev_full_def)

section \<open>The bound on the buffer\<close>

lemma drop_oldest_append:
  assumes "length xs \<le> m"
  shows "drop (length ((if m < length (xs @ [e]) then drop 1 (xs @ [e]) else xs @ [e]) @ ys) - m)
           ((if m < length (xs @ [e]) then drop 1 (xs @ [e]) else xs @ [e]) @ ys)
         = drop (length (xs @ e # ys) - m) (xs @ e # ys)"
proof (cases "m < length (xs @ [e])")
  case False
  then show ?thesis by simp
next
  case True
  with assms have len: "length xs = m" by simp
  have "drop 1 (xs @ [e]) @ ys = drop 1 (xs @ e # ys)"
    by (cases xs) simp_all
  moreover have "length (drop 1 (xs @ [e]) @ ys) - m = length ys"
    using len by simp
  moreover have "length (xs @ e # ys) - m = 1 + length ys"
    using len by simp
  ultimately show ?thesis using True
    by (simp del: drop_append drop_Suc_Cons add: drop_drop [symmetric])
qed

lemma push_event_bound:
  "length (events L) \<le> maxUnsentEvents \<Longrightarrow>
   length (events (fst (push_event L e))) \<le> maxUnsentEvents"
  by (simp add: push_event_eq del: drop_append)

lemma sendEvents_events: "events (fst (sendEvents L)) = events L"
  using run_events [of "L\<lparr>isSendingEvents := True\<rparr>" WhileEvents]
  by (auto simp: sendEvents_def simp del: run.simps split: prod.splits)

lemma resume_events:
  "events (fst (resume L fr oc)) =
     (if oc = Fulfilled then drop (length (bulk fr)) (events L) else events L)"
  using run_events [of "L\<lparr>events := drop (length (bulk fr)) (events L)\<rparr>" "AfterAttempts (attemptsLeft fr)"]
    run_events [of L "WhileAttempts (bulk fr) (attemptsLeft fr)"]
  by (cases oc)
    (auto simp: resume_def makeRequest_settled_def simp del: run.simps split: prod.splits)

lemma step_events:
  "events (target (fst (step s i))) =
     (case i of
        Log e t1 t2 \<Rightarrow> events (fst (push_event (target s) e))
      | TimerFires \<Rightarrow> events (target s)
      | Settles k oc \<Rightarrow>
          (if k < length (waiting s) \<and> oc = Fulfilled
           then drop (length (bulk (waiting s ! k))) (events (target s)) else events (target s))
      | Setup opts \<Rightarrow> events (target s))"
proof (cases i)
  case (Log e t1 t2)
  with log_event_events [of "target s" e t1 t2] show ?thesis
    by (auto split: prod.splits)
next
  case TimerFires
  with sendEvents_events [of "target s"] show ?thesis
    by (auto split: prod.splits)
next
  case (Settles k oc)
  with resume_events [of "target s" "waiting s ! k" oc] show ?thesis
    by (auto split: prod.splits)
next
  case (Setup opts)
  then show ?thesis by (simp add: configure_def)
qed

lemma step_bound:
  "length (events (target s)) \<le> maxUnsentEvents \<Longrightarrow>
   length (events (target (fst (step s i)))) \<le> maxUnsentEvents"
  using push_event_bound [of "target s"]
  by (cases i) (auto simp: step_events simp del: step.simps)

lemma exec_bound:
  "length (events (target s)) \<le> maxUnsentEvents \<Longrightarrow>
   length (events (target (fst (exec s ins)))) \<le> maxUnsentEvents"
proof (induction ins arbitrary: s)
  case Nil
  then show ?case by simp
next
  case (Cons i ins)
  from Cons.IH [OF step_bound [OF Cons.prems, of i]] show ?case
    by (simp add: split_def Let_def)
qed

lemma exec_logs_events:
  "length (events (target s)) \<le> maxUnsentEvents \<Longrightarrow>
   events (target (fst (exec s (map (\<lambda>(e, t1, t2). Log e t1 t2) calls)))) =
     drop (length (events (target s) @ map fst calls) - maxUnsentEvents)
       (events (target s) @ map fst calls)"
proof (induction calls arbitrary: s)
  case Nil
  then show ?case by simp
next
  case (Cons c calls)
  obtain e t1 t2 where c: "c = (e, t1, t2)" by (cases c)
  let ?s1 = "fst (step s (Log e t1 t2))"
  have ev1: "events (target ?s1) =
      (if maxUnsentEvents < length (events (target s) @ [e]) then drop 1 (events (target s) @ [e])
       else events (target s) @ [e])"
    by (simp add: step_events push_event_eq del: step.simps drop_append)
  have "length (events (target ?s1)) \<le> maxUnsentEvents"
    by (rule step_bound [OF Cons.prems])
  from Cons.IH [OF this]
  have "events (target (fst (exec ?s1 (map (\<lambda>(e, t1, t2). Log e t1 t2) calls)))) =
     drop (length (events (target ?s1) @ map fst calls) - maxUnsentEvents)
       (events (target ?s1) @ map fst calls)" .
  also have "\<dots> = drop (length (events (target s) @ e # map fst calls) - maxUnsentEvents)
       (events (target s) @ e # map fst calls)"
    unfolding ev1 by (rule drop_oldest_append [OF Cons.prems])
  finally show ?case using c by (simp add: split_def Let_def)
qed

lemma start_events: "events (target (start opts)) = []"
  by (simp add: start_def constructor_def configure_def initial_def)

text \<open>
  C3. Whatever the callers, the timers and the requests do from the construction of the
  logger on, the buffer never holds more than \<^verbatim>\<open>maxUnsentEvents\<close> events. A call of
  \<^verbatim>\<open>log\<close> appends its event and, if that passes the bound, removes one event, the
  oldest. So after calls of \<^verbatim>\<open>log\<close> alone the buffer holds the last
  \<^verbatim>\<open>maxUnsentEvents\<close> of the events logged, in their order: after one call more than
  the bound, all but the first. The overflow throws nothing: \<^verbatim>\<open>log\<close> throws only for an
  event without \<^verbatim>\<open>toObject\<close>.
\<close>

theorem buffer_bounded:
  "length (events (target (fst (exec (start opts) ins)))) \<le> maxUnsentEvents \<and>
   events (target (fst (exec (start opts) (map (\<lambda>(e, t1, t2). Log e t1 t2) calls)))) =
     drop (length calls - maxUnsentEvents) (map fst calls) \<and>
   (length calls = maxUnsentEvents + 1 \<longrightarrow>
      events (target (fst (exec (start opts) (map (\<lambda>(e, t1, t2). Log e t1 t2) calls)))) =
        tl (map fst calls)) \<and>
   events (fst (log_event L e t1 t2)) =
     (if maxUnsentEvents < length (events L @ [e]) then drop 1 (events L @ [e])
      else events L @ [e]) \<and>
   ((\<exists>err. snd (snd (log_event L e t1 t2)) = Inl err) \<longleftrightarrow> toObject e = None)"
proof -
  have b: "length (events (target (start opts))) \<le> maxUnsentEvents"
    by (simp add: start_events)
  have 1: "length (events (target (fst (exec (start opts) ins)))) \<le> maxUnsentEvents"
    by (rule exec_bound [OF b])
  have 2: "events (target (fst (exec (start opts) (map (\<lambda>(e, t1, t2). Log e t1 t2) calls)))) =
     drop (length calls - maxUnsentEvents) (map fst calls)"
    using exec_logs_events [OF b, of calls] by (simp add: start_events)
  have 3: "length calls = maxUnsentEvents + 1 \<longrightarrow>
      events (target (fst (exec (start opts) (map (\<lambda>(e, t1, t2). Log e t1 t2) calls)))) =
        tl (map fst calls)"
    unfolding 2 by (simp add: drop_Suc)
  have 4: "events (fst (log_event L e t1 t2)) =
     (if maxUnsentEvents < length (events L @ [e]) then drop 1 (events L @ [e])
      else events L @ [e])"
    by (simp add: log_event_events push_event_eq)
  have 5: "(\<exists>err. snd (snd (log_event L e t1 t2)) = Inl err) \<longleftrightarrow> toObject e = None"
    by (auto simp: log_event_def split: prod.splits option.splits)
  from 1 2 3 4 5 show ?thesis by blast
qed

theorem buffer_bounded_witness:
  "length overflow_calls = maxUnsentEvents + 1 \<and>
   events (target (fst (exec (start opts_min) (map (\<lambda>(e, t1, t2). Log e t1 t2) overflow_calls))))
     = replicate 5000 (ev_full 1)"
proof -
  have len: "length overflow_calls = maxUnsentEvents + 1"
    by (simp add: overflow_calls_def maxUnsentEvents_def)
  have t: "tl (map fst overflow_calls) = replicate 5000 (ev_full 1)"
    by (simp add: overflow_calls_def)
  from buffer_bounded [of opts_min "[]" overflow_calls "constructor opts_min" "ev_full 1" 0 0] len
  have "events (target (fst (exec (start opts_min) (map (\<lambda>(e, t1, t2). Log e t1 t2) overflow_calls))))
     = tl (map fst overflow_calls)"
    by blast
  with len t show ?thesis by (simp only:)
qed

section \<open>What a settled request does\<close>

lemma resume_rejected:
  "0 < a \<Longrightarrow> \<not> list_ex raises b \<Longrightarrow>
   resume L \<lparr>bulk = b, attemptsLeft = a\<rparr> Rejected =
     (L, [LoggerDebug (SentFailed (length b)), AxiosPost (makeRequest_post L b)],
      Suspended \<lparr>bulk = b, attemptsLeft = a - 1\<rparr>)"
  by (simp add: resume_def makeRequest_settled_def makeRequest_call_def)

lemma resume_rejected_last:
  "resume L \<lparr>bulk = b, attemptsLeft = 0\<rparr> Rejected =
     (L\<lparr>isSendingEvents := False\<rparr>,
      [LoggerDebug (SentFailed (length b)), LoggerDebug (RetriedFailed maxAttempts)],
      Returned RetFalse)"
  by (simp add: resume_def makeRequest_settled_def)

lemma resume_fulfilled:
  "0 < a \<Longrightarrow> resume L \<lparr>bulk = b, attemptsLeft = a\<rparr> Fulfilled =
     (case run (L\<lparr>events := drop (length b) (events L)\<rparr>) WhileEvents of
        (L', as, st) \<Rightarrow> (L', LoggerDebug (SentOk (length b)) # as, st))"
  by (simp add: resume_def makeRequest_settled_def del: run.simps(1))

lemma resume_fulfilled_last:
  "resume L \<lparr>bulk = b, attemptsLeft = 0\<rparr> Fulfilled =
     (L\<lparr>events := drop (length b) (events L), isSendingEvents := False\<rparr>,
      [LoggerDebug (SentOk (length b)), LoggerDebug (RetriedFailed maxAttempts)],
      Returned RetFalse)"
  by (simp add: resume_def makeRequest_settled_def)

lemma run_batch_start:
  "events L \<noteq> [] \<Longrightarrow> \<not> list_ex raises (take maxBulkSize (events L)) \<Longrightarrow>
   run L WhileEvents =
     (L, [AxiosPost (makeRequest_post L (take maxBulkSize (events L)))],
      Suspended \<lparr>bulk = take maxBulkSize (events L), attemptsLeft = maxAttempts - 1\<rparr>)"
  by (simp add: maxAttempts_def makeRequest_call_def)

lemma run_batch_raises:
  "events L \<noteq> [] \<Longrightarrow> list_ex raises (take maxBulkSize (events L)) \<Longrightarrow>
   run L WhileEvents = (L, [], Threw AccessorThrew)"
  by (simp add: maxAttempts_def makeRequest_call_def)

lemma fifty_one_eq:
  "fifty_one =
     \<lparr>receiverURL = ''http://localhost:8081/api/events/_bulk'', batchInterval = 5000,
      minBatchSize = 10, events = replicate 50 (ev_full 1) @ [ev_full 2],
      isSendingEvents = False, lastScheduled = - 1,
      apiKey = Some ''key-1'', logger_level = Info\<rparr>"
  by (simp add: fifty_one_def constructor_opts_min)

section \<open>A batch that is delivered\<close>

text \<open>
  C1. The test after the inner loop, \<^verbatim>\<open>attemptsLeft === 0\<close>, cannot tell a batch
  delivered by the last attempt from a batch that was never delivered. With 51 events in
  the buffer and the requests rejected twice and then fulfilled, the batch of 50 is removed
  from the buffer, but the cycle ends there: it reports that the sending has failed,
  clears the flag and returns \<^verbatim>\<open>false\<close>, with one event left in the buffer and no
  request for it. When the second attempt is the one that succeeds, the cycle goes on
  and requests the next batch.
\<close>

theorem last_attempt_success:
  "flush fifty_one [Rejected, Rejected, Fulfilled] =
     (fifty_one\<lparr>events := [ev_full 2]\<rparr>,
      [LoggerDebug Started,
       AxiosPost (makeRequest_post fifty_one (replicate 50 (ev_full 1))),
       LoggerDebug (SentFailed 50),
       AxiosPost (makeRequest_post fifty_one (replicate 50 (ev_full 1))),
       LoggerDebug (SentFailed 50),
       AxiosPost (makeRequest_post fifty_one (replicate 50 (ev_full 1))),
       LoggerDebug (SentOk 50),
       LoggerDebug (RetriedFailed 3)],
      Returned RetFalse) \<and>
   flush fifty_one [Rejected, Fulfilled] =
     (fifty_one\<lparr>events := [ev_full 2], isSendingEvents := True\<rparr>,
      [LoggerDebug Started,
       AxiosPost (makeRequest_post fifty_one (replicate 50 (ev_full 1))),
       LoggerDebug (SentFailed 50),
       AxiosPost (makeRequest_post fifty_one (replicate 50 (ev_full 1))),
       LoggerDebug (SentOk 50),
       AxiosPost (makeRequest_post fifty_one [ev_full 2])],
      Suspended \<lparr>bulk = [ev_full 2], attemptsLeft = 2\<rparr>)"
proof -
  show ?thesis
    by (simp add: flush_def sendEvents_def fifty_one_eq maxAttempts_def maxBulkSize_def
        resume_def makeRequest_settled_def makeRequest_call_def list_ex_iff raises_ev_full)
      (simp add: makeRequest_post_def)
qed

section \<open>One cycle at a time\<close>

lemma sendEvents_busy:
  "isSendingEvents L \<Longrightarrow> sendEvents L = (L, [], Returned RetUndefined)"
  by (simp add: sendEvents_def)

lemma spawned_length: "length (spawned st) \<le> 1"
  by (cases st) simp_all

lemma spawned_by_log_length: "length (spawned_by_log r) \<le> 1"
  using spawned_length by (cases r rule: spawned_by_log.cases) simp_all

lemma run_flag:
  "isSendingEvents L \<Longrightarrow>
   spawned (snd (snd (run L p))) \<noteq> [] \<longrightarrow> isSendingEvents (fst (run L p))"
  by (induction L p rule: run.induct) (simp_all add: makeRequest_call_def)

lemma run_flag_sound:
  "isSendingEvents L \<Longrightarrow> \<not> list_ex raises (events L) \<Longrightarrow>
   (case p of WhileAttempts b a \<Rightarrow> \<not> list_ex raises b | _ \<Rightarrow> True) \<Longrightarrow>
   (isSendingEvents (fst (run L p)) \<longleftrightarrow> spawned (snd (snd (run L p))) \<noteq> []) \<and>
   (\<forall>fr \<in> set (spawned (snd (snd (run L p)))). \<not> list_ex raises (bulk fr))"
proof (induction L p rule: run.induct)
  case (1 L)
  have "\<not> list_ex raises (take maxBulkSize (events L))"
    using 1(3) by (auto simp: list_ex_iff dest: in_set_takeD)
  with 1 show ?case by simp
next
  case (2 L b a)
  then show ?case by (simp add: makeRequest_call_def)
next
  case (3 L a)
  then show ?case by simp
qed

lemma sendEvents_flag:
  "\<not> isSendingEvents L \<Longrightarrow>
   spawned (snd (snd (sendEvents L))) \<noteq> [] \<longrightarrow> isSendingEvents (fst (sendEvents L))"
  using run_flag [of "L\<lparr>isSendingEvents := True\<rparr>" WhileEvents]
  by (auto simp: sendEvents_def simp del: run.simps split: prod.splits)

lemma sendEvents_flag_sound:
  "\<not> isSendingEvents L \<Longrightarrow> \<not> list_ex raises (events L) \<Longrightarrow>
   (isSendingEvents (fst (sendEvents L)) \<longleftrightarrow> spawned (snd (snd (sendEvents L))) \<noteq> []) \<and>
   (\<forall>fr \<in> set (spawned (snd (snd (sendEvents L)))). \<not> list_ex raises (bulk fr))"
  using run_flag_sound [of "L\<lparr>isSendingEvents := True\<rparr>" WhileEvents]
  by (auto simp: sendEvents_def simp del: run.simps split: prod.splits)

lemma resume_flag:
  "isSendingEvents L \<Longrightarrow>
   spawned (snd (snd (resume L fr oc))) \<noteq> [] \<longrightarrow> isSendingEvents (fst (resume L fr oc))"
  using run_flag [of "L\<lparr>events := drop (length (bulk fr)) (events L)\<rparr>" "AfterAttempts (attemptsLeft fr)"]
    run_flag [of L "WhileAttempts (bulk fr) (attemptsLeft fr)"]
  by (cases oc)
    (auto simp: resume_def makeRequest_settled_def simp del: run.simps split: prod.splits)

lemma resume_flag_sound:
  assumes "isSendingEvents L" and "\<not> list_ex raises (events L)" and "\<not> list_ex raises (bulk fr)"
  shows "(isSendingEvents (fst (resume L fr oc)) \<longleftrightarrow> spawned (snd (snd (resume L fr oc))) \<noteq> []) \<and>
   (\<forall>fr' \<in> set (spawned (snd (snd (resume L fr oc)))). \<not> list_ex raises (bulk fr'))"
proof -
  have d: "\<not> list_ex raises (drop (length (bulk fr)) (events L))"
    using assms(2) by (auto simp: list_ex_iff dest: in_set_dropD)
  from run_flag_sound [of "L\<lparr>events := drop (length (bulk fr)) (events L)\<rparr>" "AfterAttempts (attemptsLeft fr)"]
    run_flag_sound [of L "WhileAttempts (bulk fr) (attemptsLeft fr)"] assms d
  show ?thesis
    by (cases oc)
      (auto simp: resume_def makeRequest_settled_def simp del: run.simps split: prod.splits)
qed

lemma log_event_busy:
  assumes "isSendingEvents L"
  shows "isSendingEvents (fst (log_event L e t1 t2))"
    and "filter is_post (fst (snd (log_event L e t1 t2))) = []"
    and "spawned_by_log (snd (snd (log_event L e t1 t2))) = []"
proof -
  obtain L1 as1 where p: "push_event L e = (L1, as1)" by force
  obtain L2 as2 where s: "schedule L1 t1 t2 = (L2, as2)" by force
  from p assms have p': "isSendingEvents L1" "filter is_post as1 = []"
    by (auto simp: push_event_eq)
  from schedule_config [OF s] p' have s': "isSendingEvents L2" by auto
  from s have s'': "filter is_post as2 = []"
    by (auto simp: schedule_def split: if_splits)
  have t: "trigger L2 =
     (if of_nat (length (events L2)) = minBatchSize L2
      then (L2, [LoggerDebug ScheduledImmediate], Some (Returned RetUndefined))
      else (L2, [], None))"
    using s' by (simp add: trigger_def sendEvents_busy)
  show "isSendingEvents (fst (log_event L e t1 t2))"
    and "filter is_post (fst (snd (log_event L e t1 t2))) = []"
    and "spawned_by_log (snd (snd (log_event L e t1 t2))) = []"
    using p p' s s' s'' t by (auto simp: log_event_def split: option.splits)
qed

lemma log_event_idle:
  assumes "\<not> isSendingEvents L"
  shows "spawned_by_log (snd (snd (log_event L e t1 t2))) \<noteq> []
           \<longrightarrow> isSendingEvents (fst (log_event L e t1 t2))"
proof -
  obtain L1 as1 where p: "push_event L e = (L1, as1)" by force
  obtain L2 as2 where s: "schedule L1 t1 t2 = (L2, as2)" by force
  from p assms have p': "\<not> isSendingEvents L1"
    by (auto simp: push_event_eq)
  from schedule_config [OF s] p' have s': "\<not> isSendingEvents L2" by auto
  from sendEvents_flag [OF s'] p s p' show ?thesis
    by (auto simp: log_event_def trigger_def split: option.splits prod.splits)
qed

lemma push_event_sound:
  assumes "\<not> list_ex raises (events L)" and "\<not> raises e"
  shows "\<not> list_ex raises (events (fst (push_event L e)))"
proof -
  have "set (events (fst (push_event L e))) \<subseteq> set (events L @ [e])"
    using set_drop_subset [of "Suc 0" "events L @ [e]"]
    by (auto simp: push_event_eq simp del: drop_append)
  with assms show ?thesis by (auto simp: list_ex_iff)
qed

lemma log_event_idle_sound:
  assumes "\<not> isSendingEvents L" and "\<not> list_ex raises (events L)" and "\<not> raises e"
  shows "(isSendingEvents (fst (log_event L e t1 t2))
            \<longleftrightarrow> spawned_by_log (snd (snd (log_event L e t1 t2))) \<noteq> []) \<and>
         (\<forall>fr \<in> set (spawned_by_log (snd (snd (log_event L e t1 t2)))).
            \<not> list_ex raises (bulk fr))"
proof -
  obtain L1 as1 where p: "push_event L e = (L1, as1)" by force
  obtain L2 as2 where s: "schedule L1 t1 t2 = (L2, as2)" by force
  from p assms push_event_sound [of L e]
  have p': "\<not> isSendingEvents L1" "\<not> list_ex raises (events L1)"
    by (auto simp: push_event_eq)
  from schedule_config [OF s] p' have s': "\<not> isSendingEvents L2" "\<not> list_ex raises (events L2)"
    by auto
  from sendEvents_flag_sound [OF s'] p s s' p' show ?thesis
    by (auto simp: log_event_def trigger_def split: option.splits prod.splits)
qed


lemma step_in_flight:
  assumes "length (waiting s) \<le> 1" and "waiting s \<noteq> [] \<longrightarrow> isSendingEvents (target s)"
  shows "length (waiting (fst (step s i))) \<le> 1 \<and>
         (waiting (fst (step s i)) \<noteq> [] \<longrightarrow> isSendingEvents (target (fst (step s i))))"
proof (cases i)
  case (Log e t1 t2)
  show ?thesis
  proof (cases "isSendingEvents (target s)")
    case True
    from log_event_busy [OF True, of e t1 t2] assms Log show ?thesis
      by (auto split: prod.splits)
  next
    case False
    with assms have "waiting s = []" by auto
    with log_event_idle [OF False, of e t1 t2] Log
      spawned_by_log_length [of "snd (snd (log_event (target s) e t1 t2))"]
    show ?thesis by (auto split: prod.splits)
  qed
next
  case TimerFires
  show ?thesis
  proof (cases "isSendingEvents (target s)")
    case True
    with assms TimerFires show ?thesis by (simp add: sendEvents_busy)
  next
    case False
    with assms have "waiting s = []" by auto
    with sendEvents_flag [OF False] TimerFires
      spawned_length [of "snd (snd (sendEvents (target s)))"]
    show ?thesis by (auto split: prod.splits)
  qed
next
  case (Settles k oc)
  show ?thesis
  proof (cases "k < length (waiting s)")
    case False
    with assms Settles show ?thesis by simp
  next
    case True
    with assms have k: "k = 0" and w: "length (waiting s) = 1" and f: "isSendingEvents (target s)"
      by auto
    from w have "take 0 (waiting s) @ drop (Suc 0) (waiting s) = []" by simp
    with resume_flag [OF f, of "waiting s ! 0" oc] Settles True k
      spawned_length [of "snd (snd (resume (target s) (waiting s ! 0) oc))"]
    show ?thesis by (auto split: prod.splits)
  qed
next
  case (Setup opts)
  with assms show ?thesis by (simp add: configure_def)
qed

lemma exec_in_flight:
  "length (waiting s) \<le> 1 \<Longrightarrow> (waiting s \<noteq> [] \<longrightarrow> isSendingEvents (target s)) \<Longrightarrow>
   length (waiting (fst (exec s ins))) \<le> 1 \<and>
   (waiting (fst (exec s ins)) \<noteq> [] \<longrightarrow> isSendingEvents (target (fst (exec s ins))))"
proof (induction ins arbitrary: s)
  case Nil
  then show ?case by simp
next
  case (Cons i ins)
  from step_in_flight [OF Cons.prems, of i]
  have "length (waiting (fst (step s i))) \<le> 1"
    and "waiting (fst (step s i)) \<noteq> [] \<longrightarrow> isSendingEvents (target (fst (step s i)))"
    by simp_all
  from Cons.IH [OF this] show ?case
    by (simp add: split_def Let_def)
qed

text \<open>Once the flag is set and no invocation is suspended, it stays so, and no request
  is issued any more.\<close>

lemma step_stuck:
  assumes "isSendingEvents (target s)" and "waiting s = []"
  shows "isSendingEvents (target (fst (step s i))) \<and> waiting (fst (step s i)) = [] \<and>
         filter is_post (snd (step s i)) = []"
proof (cases i)
  case (Log e t1 t2)
  from log_event_busy [OF assms(1), of e t1 t2] assms Log show ?thesis
    by (auto split: prod.splits)
next
  case TimerFires
  with assms show ?thesis by (simp add: sendEvents_busy)
next
  case (Settles k oc)
  with assms show ?thesis by simp
next
  case (Setup opts)
  with assms show ?thesis by (simp add: configure_def)
qed

lemma exec_stuck:
  "isSendingEvents (target s) \<Longrightarrow> waiting s = [] \<Longrightarrow>
   isSendingEvents (target (fst (exec s ins))) \<and> waiting (fst (exec s ins)) = [] \<and>
   filter is_post (snd (exec s ins)) = []"
proof (induction ins arbitrary: s)
  case Nil
  then show ?case by simp
next
  case (Cons i ins)
  from step_stuck [OF Cons.prems, of i]
  have a: "isSendingEvents (target (fst (step s i)))" "waiting (fst (step s i)) = []"
    "filter is_post (snd (step s i)) = []"
    by simp_all
  from Cons.IH [OF a(1,2)] a(3) show ?case
    by (simp add: split_def Let_def)
qed

text \<open>As long as no accessor of a logged event throws, the flag is set exactly while an
  invocation is suspended.\<close>

lemma step_sound:
  assumes "length (waiting s) \<le> 1"
    and "isSendingEvents (target s) \<longleftrightarrow> waiting s \<noteq> []"
    and "\<not> list_ex raises (events (target s))"
    and "\<forall>fr \<in> set (waiting s). \<not> list_ex raises (bulk fr)"
    and "sound i"
  shows "length (waiting (fst (step s i))) \<le> 1 \<and>
         (isSendingEvents (target (fst (step s i))) \<longleftrightarrow> waiting (fst (step s i)) \<noteq> []) \<and>
         \<not> list_ex raises (events (target (fst (step s i)))) \<and>
         (\<forall>fr \<in> set (waiting (fst (step s i))). \<not> list_ex raises (bulk fr))"
proof -
  have ev: "\<not> list_ex raises (events (target (fst (step s i))))"
  proof (cases i)
    case (Log e t1 t2)
    with assms(5) have "\<not> raises e" by simp
    from push_event_sound [OF assms(3) this] Log show ?thesis
      by (simp add: step_events del: step.simps)
  next
    case TimerFires
    with assms(3) show ?thesis by (simp add: step_events del: step.simps)
  next
    case (Settles k oc)
    have "\<not> list_ex raises (drop n (events (target s)))" for n
      using assms(3) by (auto simp: list_ex_iff dest: in_set_dropD)
    with assms(3) Settles show ?thesis by (simp add: step_events del: step.simps)
  next
    case (Setup opts)
    with assms(3) show ?thesis by (simp add: step_events del: step.simps)
  qed
  have rest: "length (waiting (fst (step s i))) \<le> 1 \<and>
         (isSendingEvents (target (fst (step s i))) \<longleftrightarrow> waiting (fst (step s i)) \<noteq> []) \<and>
         (\<forall>fr \<in> set (waiting (fst (step s i))). \<not> list_ex raises (bulk fr))"
  proof (cases i)
    case (Log e t1 t2)
    with assms(5) have e: "\<not> raises e" by simp
    show ?thesis
    proof (cases "isSendingEvents (target s)")
      case True
      from log_event_busy [OF True, of e t1 t2] assms Log True show ?thesis
        by (auto split: prod.splits)
    next
      case False
      with assms have "waiting s = []" by auto
      with log_event_idle_sound [OF False assms(3) e, of t1 t2] Log False
        spawned_by_log_length [of "snd (snd (log_event (target s) e t1 t2))"]
      show ?thesis by (auto split: prod.splits)
    qed
  next
    case TimerFires
    show ?thesis
    proof (cases "isSendingEvents (target s)")
      case True
      with assms TimerFires show ?thesis by (simp add: sendEvents_busy)
    next
      case False
      with assms have "waiting s = []" by auto
      with sendEvents_flag_sound [OF False assms(3)] TimerFires False
        spawned_length [of "snd (snd (sendEvents (target s)))"]
      show ?thesis by (auto split: prod.splits)
    qed
  next
    case (Settles k oc)
    show ?thesis
    proof (cases "k < length (waiting s)")
      case False
      with assms Settles show ?thesis by simp
    next
      case True
      with assms have k: "k = 0" and w: "length (waiting s) = 1"
        and f: "isSendingEvents (target s)"
        by auto
      from w assms(4) have b: "\<not> list_ex raises (bulk (waiting s ! 0))"
        by (cases "waiting s") auto
      from w have "take 0 (waiting s) @ drop (Suc 0) (waiting s) = []" by simp
      with resume_flag_sound [OF f assms(3) b, of oc] Settles True k
        spawned_length [of "snd (snd (resume (target s) (waiting s ! 0) oc))"]
      show ?thesis by (auto split: prod.splits)
    qed
  next
    case (Setup opts)
    with assms show ?thesis by (simp add: configure_def)
  qed
  from ev rest show ?thesis by blast
qed

lemma exec_sound:
  "length (waiting s) \<le> 1 \<Longrightarrow> (isSendingEvents (target s) \<longleftrightarrow> waiting s \<noteq> []) \<Longrightarrow>
   \<not> list_ex raises (events (target s)) \<Longrightarrow>
   \<forall>fr \<in> set (waiting s). \<not> list_ex raises (bulk fr) \<Longrightarrow> list_all sound ins \<Longrightarrow>
   length (waiting (fst (exec s ins))) \<le> 1 \<and>
   (isSendingEvents (target (fst (exec s ins))) \<longleftrightarrow> waiting (fst (exec s ins)) \<noteq> [])"
proof (induction ins arbitrary: s)
  case Nil
  then show ?case by simp
next
  case (Cons i ins)
  from Cons.prems(5) have i: "sound i" and ins: "list_all sound ins" by simp_all
  from step_sound [OF Cons.prems(1-4) i]
  have a: "length (waiting (fst (step s i))) \<le> 1"
    "isSendingEvents (target (fst (step s i))) \<longleftrightarrow> waiting (fst (step s i)) \<noteq> []"
    "\<not> list_ex raises (events (target (fst (step s i))))"
    "\<forall>fr \<in> set (waiting (fst (step s i))). \<not> list_ex raises (bulk fr)"
    by simp_all
  from Cons.IH [OF a ins] show ?case
    by (simp add: split_def Let_def)
qed

lemma start_idle:
  "waiting (start opts) = []" "\<not> isSendingEvents (target (start opts))"
  "events (target (start opts)) = []"
  by (simp_all add: start_def constructor_def configure_def initial_def)

lemma in_flight_at_most_one:
  "length (waiting (fst (exec (start opts) ins))) \<le> 1 \<and>
   (waiting (fst (exec (start opts) ins)) \<noteq> []
      \<longrightarrow> isSendingEvents (target (fst (exec (start opts) ins))))"
  by (rule exec_in_flight) (simp_all add: start_idle)

lemma flag_while_sound:
  "list_all sound ins \<Longrightarrow>
   isSendingEvents (target (fst (exec (start opts) ins)))
     \<longleftrightarrow> waiting (fst (exec (start opts) ins)) \<noteq> []"
  using exec_sound [of "start opts" ins] by (simp add: start_idle)

text \<open>
  C7. \<^verbatim>\<open>sendEvents\<close> clears \<^verbatim>\<open>isSendingEvents\<close> where it returns, after the loop and
  after a batch is given up, but not where it is left by an exception: \<^verbatim>\<open>makeRequest\<close>
  maps the events before its \<^verbatim>\<open>try\<close>, and \<^verbatim>\<open>sendEvents\<close> awaits it unguarded. With a
  minimal batch size of 2, the second event logged starts a cycle; its \<^verbatim>\<open>serialize\<close>
  throws, so the invocation ends with no request issued and the flag still set. No cycle
  is running then, and none runs any more: the third event and the timer find the flag
  set. (At most one request is in flight on every run, \<open>in_flight_at_most_one\<close>; the flag
  is set exactly while one is as long as no accessor throws, \<open>flag_while_sound\<close>; once
  the flag is set with nothing in flight it stays so, \<open>exec_stuck\<close>.)
\<close>

theorem flag_left_set:
  "fst (exec (start opts_two) stuck_run) =
     \<lparr>target = (constructor opts_two)
        \<lparr>events := [ev_full 1, ev_raising, ev_full 3], isSendingEvents := True,
          lastScheduled := 1000\<rparr>,
      waiting = [], timers = 0\<rparr> \<and>
   filter is_post (snd (exec (start opts_two) stuck_run)) = []"
  by (simp add: stuck_run_def start_def constructor_opts_two log_event_def push_event_eq
      maxUnsentEvents_def schedule_def trigger_def sendEvents_def maxAttempts_def
      maxBulkSize_def ev_full_def ev_raising_def makeRequest_call_def)

section \<open>Retries among other calls\<close>

lemma exec_append:
  "exec s (xs @ ys) =
     (fst (exec (fst (exec s xs)) ys), snd (exec s xs) @ snd (exec (fst (exec s xs)) ys))"
  by (induction xs arbitrary: s) (simp_all add: split_def Let_def)

lemma calm_step:
  assumes "calm i" and "isSendingEvents (target s)"
  shows "step (s\<lparr>waiting := w\<rparr>) i = ((fst (step s i))\<lparr>waiting := w\<rparr>, snd (step s i))"
    and "isSendingEvents (target (fst (step s i)))"
    and "filter is_post (snd (step s i)) = []"
proof -
  have "step (s\<lparr>waiting := w\<rparr>) i = ((fst (step s i))\<lparr>waiting := w\<rparr>, snd (step s i)) \<and>
    isSendingEvents (target (fst (step s i))) \<and> filter is_post (snd (step s i)) = []"
  proof (cases i)
    case (Log e t1 t2)
    from log_event_busy [OF assms(2), of e t1 t2] Log show ?thesis
      by (auto split: prod.splits)
  next
    case TimerFires
    with assms show ?thesis by (simp add: sendEvents_busy)
  next
    case (Settles k oc)
    with assms show ?thesis by simp
  next
    case (Setup opts)
    with assms show ?thesis by (simp add: configure_def)
  qed
  then show "step (s\<lparr>waiting := w\<rparr>) i = ((fst (step s i))\<lparr>waiting := w\<rparr>, snd (step s i))"
    and "isSendingEvents (target (fst (step s i)))"
    and "filter is_post (snd (step s i)) = []"
    by simp_all
qed

lemma calm_exec:
  "list_all calm c \<Longrightarrow> isSendingEvents (target s) \<Longrightarrow>
   exec (s\<lparr>waiting := w\<rparr>) c = ((fst (exec s c))\<lparr>waiting := w\<rparr>, snd (exec s c)) \<and>
   isSendingEvents (target (fst (exec s c))) \<and> filter is_post (snd (exec s c)) = []"
proof (induction c arbitrary: s)
  case Nil
  then show ?case by simp
next
  case (Cons i c)
  from Cons.prems have i: "calm i" and c: "list_all calm c" by simp_all
  note st = calm_step [OF i Cons.prems(2)]
  from Cons.IH [OF c st(2)] st(1) [of w] st(3) show ?case
    by (simp add: split_def Let_def del: step.simps)
qed

lemma calm_waiting:
  assumes "list_all calm c" and "isSendingEvents (target s)"
  shows "waiting (fst (exec s c)) = waiting s"
proof -
  from calm_exec [OF assms, of "waiting s"]
  have "exec s c = ((fst (exec s c))\<lparr>waiting := waiting s\<rparr>, snd (exec s c))"
    by simp
  then have "fst (exec s c) = (fst (exec s c))\<lparr>waiting := waiting s\<rparr>"
    by (metis fst_conv)
  then have "waiting (fst (exec s c)) = waiting ((fst (exec s c))\<lparr>waiting := waiting s\<rparr>)"
    by (rule arg_cong)
  then show ?thesis by simp
qed

lemma calm_no_log_events:
  "list_all calm c \<Longrightarrow> \<not> list_ex is_log c \<Longrightarrow> events (target (fst (exec s c))) = events (target s)"
proof (induction c arbitrary: s)
  case Nil
  then show ?case by simp
next
  case (Cons i c)
  from Cons.prems have "events (target (fst (step s i))) = events (target s)"
    by (cases i) (simp_all add: step_events del: step.simps)
  with Cons show ?case by (simp add: split_def Let_def del: step.simps)
qed

lemma round_rejected:
  assumes "waiting s = [\<lparr>bulk = b, attemptsLeft = Suc a\<rparr>]" and "isSendingEvents (target s)"
    and "\<not> list_ex raises b" and "list_all calm c"
  shows "exec s (c @ [Settles 0 Rejected]) =
     ((fst (exec s c))\<lparr>waiting := [\<lparr>bulk = b, attemptsLeft = a\<rparr>]\<rparr>,
      snd (exec s c) @ [LoggerDebug (SentFailed (length b)),
                        AxiosPost (makeRequest_post (target (fst (exec s c))) b)])"
proof -
  have w: "waiting (fst (exec s c)) = [\<lparr>bulk = b, attemptsLeft = Suc a\<rparr>]"
    using calm_waiting [OF assms(4,2)] assms(1) by simp
  show ?thesis
    by (simp add: exec_append w resume_rejected [OF _ assms(3)])
qed

lemma round_exhausted:
  assumes "waiting s = [\<lparr>bulk = b, attemptsLeft = 0\<rparr>]" and "isSendingEvents (target s)"
    and "list_all calm c"
  shows "exec s (c @ [Settles 0 Rejected]) =
     ((fst (exec s c))\<lparr>target := (target (fst (exec s c)))\<lparr>isSendingEvents := False\<rparr>,
                       waiting := []\<rparr>,
      snd (exec s c) @ [LoggerDebug (SentFailed (length b)),
                        LoggerDebug (RetriedFailed maxAttempts)])"
proof -
  have w: "waiting (fst (exec s c)) = [\<lparr>bulk = b, attemptsLeft = 0\<rparr>]"
    using calm_waiting [OF assms(3,2)] assms(1) by simp
  show ?thesis
    by (simp add: exec_append w resume_rejected_last)
qed

text \<open>
  C2, as the claim states it, fails: the failed batch need not be in the buffer at the
  end. With 5000 events in the buffer and the first request for their first 50 in flight,
  one call of \<^verbatim>\<open>log\<close> evicts the oldest event, which is the first of that batch; after
  the three rejections the cycle is over and that event is gone.
\<close>

theorem retries_counterexample:
  "waiting retrying_full =
     [\<lparr>bulk = take maxBulkSize (events (target retrying_full)),
       attemptsLeft = maxAttempts - 1\<rparr>] \<and>
   fst (exec retrying_full
         [Log (ev_full 2) 1000000 1000000,
          Settles 0 Rejected, Settles 0 Rejected, Settles 0 Rejected]) =
     \<lparr>target = (constructor opts_min)
        \<lparr>events := replicate 4999 (ev_full 1) @ [ev_full 2], lastScheduled := 1000\<rparr>,
      waiting = [], timers = 1\<rparr> \<and>
   ev_full 0 \<in> set (take maxBulkSize (events (target retrying_full))) \<and>
   ev_full 0 \<notin> set (replicate 4999 (ev_full 1) @ [ev_full 2])"
  by (simp add: retrying_full_def constructor_opts_min maxBulkSize_def maxAttempts_def
      log_event_def push_event_eq maxUnsentEvents_def schedule_def trigger_def sendEvents_def
      resume_def makeRequest_settled_def makeRequest_call_def list_ex_iff ev_full_def)

text \<open>
  C2, amended. A batch begins at the head of the loop with one request and two attempts
  left. Let every request for it be rejected, with any calls of \<^verbatim>\<open>log\<close>, timer callbacks
  and reconfigurations before each rejection. Then two more requests are issued, for the
  same events, which makes \<^verbatim>\<open>maxAttempts\<close>; until the last rejection the invocation is
  suspended on that batch; at the last one it clears the flag and returns \<^verbatim>\<open>false\<close>,
  throwing nothing. The cycle removes nothing: the logger is at the end what the other
  calls alone have made of it, but for the flag, so with no call of \<^verbatim>\<open>log\<close> among them
  the buffer is what it was, the failed batch and everything after it.
\<close>

theorem retries_exhausted:
  assumes "waiting s = [\<lparr>bulk = b, attemptsLeft = maxAttempts - 1\<rparr>]"
    and "isSendingEvents (target s)"
    and "\<not> list_ex raises b"
    and "list_all calm c0" and "list_all calm c1" and "list_all calm c2"
  shows
   "filter is_post (snd (exec s
        (c0 @ [Settles 0 Rejected] @ c1 @ [Settles 0 Rejected] @ c2 @ [Settles 0 Rejected]))) =
      [AxiosPost (makeRequest_post (target (fst (exec s c0))) b),
       AxiosPost (makeRequest_post (target (fst (exec s (c0 @ c1)))) b)] \<and>
    waiting (fst (exec s (c0 @ [Settles 0 Rejected] @ c1 @ [Settles 0 Rejected] @ c2))) =
      [\<lparr>bulk = b, attemptsLeft = 0\<rparr>] \<and>
    fst (exec s
        (c0 @ [Settles 0 Rejected] @ c1 @ [Settles 0 Rejected] @ c2 @ [Settles 0 Rejected])) =
      (fst (exec s (c0 @ c1 @ c2)))
        \<lparr>target := (target (fst (exec s (c0 @ c1 @ c2))))\<lparr>isSendingEvents := False\<rparr>,
          waiting := []\<rparr> \<and>
    resume (target (fst (exec s (c0 @ c1 @ c2)))) \<lparr>bulk = b, attemptsLeft = 0\<rparr> Rejected =
      ((target (fst (exec s (c0 @ c1 @ c2))))\<lparr>isSendingEvents := False\<rparr>,
       [LoggerDebug (SentFailed (length b)), LoggerDebug (RetriedFailed maxAttempts)],
       Returned RetFalse) \<and>
    (\<not> list_ex is_log (c0 @ c1 @ c2) \<longrightarrow>
       events (target (fst (exec s
         (c0 @ [Settles 0 Rejected] @ c1 @ [Settles 0 Rejected] @ c2 @ [Settles 0 Rejected]))))
       = events (target s)) \<and>
    (events L \<noteq> [] \<and> \<not> list_ex raises (take maxBulkSize (events L)) \<longrightarrow>
       run L WhileEvents =
         (L, [AxiosPost (makeRequest_post L (take maxBulkSize (events L)))],
          Suspended \<lparr>bulk = take maxBulkSize (events L), attemptsLeft = maxAttempts - 1\<rparr>))"
proof -
  let ?R = "Settles 0 Rejected"
  let ?T0 = "fst (exec s c0)"
  let ?T1 = "fst (exec s (c0 @ c1))"
  let ?T2 = "fst (exec s (c0 @ c1 @ c2))"
  let ?S1 = "?T0\<lparr>waiting := [\<lparr>bulk = b, attemptsLeft = Suc 0\<rparr>]\<rparr>"
  let ?S2 = "?T1\<lparr>waiting := [\<lparr>bulk = b, attemptsLeft = 0\<rparr>]\<rparr>"
  let ?fail = "LoggerDebug (SentFailed (length b))"
  have w: "waiting s = [\<lparr>bulk = b, attemptsLeft = Suc (Suc 0)\<rparr>]"
    using assms(1) by (simp add: maxAttempts_def eval_nat_numeral)
  have f0: "isSendingEvents (target ?T0)"
    and p0: "filter is_post (snd (exec s c0)) = []"
    using calm_exec [OF assms(4,2)] by simp_all
  have T1: "?T1 = fst (exec ?T0 c1)" and T2: "?T2 = fst (exec ?T1 c2)"
    by (simp_all add: exec_append)
  have f1: "isSendingEvents (target ?T1)"
    and p1: "filter is_post (snd (exec ?T0 c1)) = []"
    using calm_exec [OF assms(5) f0] by (simp_all add: T1)
  have f2: "isSendingEvents (target ?T2)"
    and p2: "filter is_post (snd (exec ?T1 c2)) = []"
    using calm_exec [OF assms(6) f1] by (simp_all add: T2)
  have r1: "exec s (c0 @ [?R]) =
      (?S1, snd (exec s c0) @ [?fail, AxiosPost (makeRequest_post (target ?T0) b)])"
    using round_rejected [OF w assms(2,3,4)] by simp
  have e1: "exec ?S1 c1 = (?T1\<lparr>waiting := [\<lparr>bulk = b, attemptsLeft = Suc 0\<rparr>]\<rparr>, snd (exec ?T0 c1))"
    using calm_exec [OF assms(5) f0, of "[\<lparr>bulk = b, attemptsLeft = Suc 0\<rparr>]"] by (simp add: T1)
  have r2: "exec ?S1 (c1 @ [?R]) =
      (?S2, snd (exec ?T0 c1) @ [?fail, AxiosPost (makeRequest_post (target ?T1) b)])"
    using round_rejected [of ?S1 b 0 c1] f0 assms(3,5) by (simp add: e1)
  have e2: "exec ?S2 c2 = (?T2\<lparr>waiting := [\<lparr>bulk = b, attemptsLeft = 0\<rparr>]\<rparr>, snd (exec ?T1 c2))"
    using calm_exec [OF assms(6) f1, of "[\<lparr>bulk = b, attemptsLeft = 0\<rparr>]"] by (simp add: T2)
  have r3: "exec ?S2 (c2 @ [?R]) =
      (?T2\<lparr>target := (target ?T2)\<lparr>isSendingEvents := False\<rparr>, waiting := []\<rparr>,
       snd (exec ?T1 c2) @ [?fail, LoggerDebug (RetriedFailed maxAttempts)])"
    using round_exhausted [of ?S2 b c2] f1 assms(6) by (simp add: e2)
  have split3: "c0 @ [?R] @ c1 @ [?R] @ c2 @ [?R] = (c0 @ [?R]) @ (c1 @ [?R]) @ (c2 @ [?R])"
    and split2: "c0 @ [?R] @ c1 @ [?R] @ c2 = (c0 @ [?R]) @ (c1 @ [?R]) @ c2"
    by simp_all
  have full: "exec s (c0 @ [?R] @ c1 @ [?R] @ c2 @ [?R]) =
      (?T2\<lparr>target := (target ?T2)\<lparr>isSendingEvents := False\<rparr>, waiting := []\<rparr>,
       (snd (exec s c0) @ [?fail, AxiosPost (makeRequest_post (target ?T0) b)]) @
       (snd (exec ?T0 c1) @ [?fail, AxiosPost (makeRequest_post (target ?T1) b)]) @
       (snd (exec ?T1 c2) @ [?fail, LoggerDebug (RetriedFailed maxAttempts)]))"
    unfolding split3 by (simp only: exec_append [of s "c0 @ [?R]"] exec_append [of ?S1 "c1 @ [?R]"]
        r1 r2 r3 fst_conv snd_conv)
  have before: "fst (exec s (c0 @ [?R] @ c1 @ [?R] @ c2)) =
      ?T2\<lparr>waiting := [\<lparr>bulk = b, attemptsLeft = 0\<rparr>]\<rparr>"
    unfolding split2 by (simp only: exec_append [of s "c0 @ [?R]"] exec_append [of ?S1 "c1 @ [?R]"]
        r1 r2 e2 fst_conv snd_conv)
  have 1: "filter is_post (snd (exec s (c0 @ [?R] @ c1 @ [?R] @ c2 @ [?R]))) =
      [AxiosPost (makeRequest_post (target ?T0) b), AxiosPost (makeRequest_post (target ?T1) b)]"
    unfolding full by (simp add: p0 p1 p2)
  have 2: "waiting (fst (exec s (c0 @ [?R] @ c1 @ [?R] @ c2))) = [\<lparr>bulk = b, attemptsLeft = 0\<rparr>]"
    unfolding before by simp
  have 3: "fst (exec s (c0 @ [?R] @ c1 @ [?R] @ c2 @ [?R])) =
      ?T2\<lparr>target := (target ?T2)\<lparr>isSendingEvents := False\<rparr>, waiting := []\<rparr>"
    unfolding full by simp
  have 4: "resume (target ?T2) \<lparr>bulk = b, attemptsLeft = 0\<rparr> Rejected =
      ((target ?T2)\<lparr>isSendingEvents := False\<rparr>,
       [?fail, LoggerDebug (RetriedFailed maxAttempts)], Returned RetFalse)"
    by (rule resume_rejected_last)
  have 5: "\<not> list_ex is_log (c0 @ c1 @ c2) \<longrightarrow>
       events (target (fst (exec s (c0 @ [?R] @ c1 @ [?R] @ c2 @ [?R])))) = events (target s)"
  proof
    assume n: "\<not> list_ex is_log (c0 @ c1 @ c2)"
    have "list_all calm (c0 @ c1 @ c2)" using assms(4,5,6) by simp
    from calm_no_log_events [OF this n, of s] show
      "events (target (fst (exec s (c0 @ [?R] @ c1 @ [?R] @ c2 @ [?R])))) = events (target s)"
      unfolding 3 by simp
  qed
  have 6: "events L \<noteq> [] \<and> \<not> list_ex raises (take maxBulkSize (events L)) \<longrightarrow>
       run L WhileEvents =
         (L, [AxiosPost (makeRequest_post L (take maxBulkSize (events L)))],
          Suspended \<lparr>bulk = take maxBulkSize (events L), attemptsLeft = maxAttempts - 1\<rparr>)"
    using run_batch_start [of L] by blast
  from 1 2 3 4 5 6 show ?thesis by blast
qed

lemma retrying_eq:
  "retrying =
     \<lparr>target =
        \<lparr>receiverURL = ''http://localhost:8081/api/events/_bulk'', batchInterval = 5000,
         minBatchSize = 10, events = replicate 50 (ev_full 1) @ [ev_full 2],
         isSendingEvents = True, lastScheduled = - 1,
         apiKey = Some ''key-1'', logger_level = Info\<rparr>,
      waiting = [\<lparr>bulk = replicate 50 (ev_full 1), attemptsLeft = 2\<rparr>],
      timers = 0\<rparr>"
  by (simp add: retrying_def fifty_one_eq)

theorem retries_exhausted_witness:
  "waiting (fst (exec retrying
      [Log (ev_full 3) 1000000 1000000, Settles 0 Rejected, Setup opts_a, Settles 0 Rejected,
       TimerFires, Settles 0 Rejected])) = [] \<and>
   target (fst (exec retrying
      [Log (ev_full 3) 1000000 1000000, Settles 0 Rejected, Setup opts_a, Settles 0 Rejected,
       TimerFires, Settles 0 Rejected])) =
     \<lparr>receiverURL = ''https://collector.example/bulk'', batchInterval = 5000,
      minBatchSize = 20, events = replicate 50 (ev_full 1) @ [ev_full 2, ev_full 3],
      isSendingEvents = False, lastScheduled = 1000,
      apiKey = Some ''key-1'', logger_level = Info\<rparr> \<and>
   map (\<lambda>a. case a of AxiosPost r \<Rightarrow> url r | _ \<Rightarrow> [])
     (filter is_post (snd (exec retrying
      [Log (ev_full 3) 1000000 1000000, Settles 0 Rejected, Setup opts_a, Settles 0 Rejected,
       TimerFires, Settles 0 Rejected]))) =
     [''http://localhost:8081/api/events/_bulk'', ''https://collector.example/bulk'']"
proof -
  have h: "waiting retrying = [\<lparr>bulk = replicate 50 (ev_full 1), attemptsLeft = maxAttempts - 1\<rparr>]"
    "isSendingEvents (target retrying)" "\<not> list_ex raises (replicate 50 (ev_full 1))"
    "list_all calm [Log (ev_full 3) 1000000 1000000]" "list_all calm [Setup opts_a]"
    "list_all calm [TimerFires]"
    by (simp_all add: retrying_eq maxAttempts_def list_ex_iff raises_ev_full)
  have c: "exec retrying [Log (ev_full 3) 1000000 1000000, Setup opts_a, TimerFires] =
     (\<lparr>target =
        \<lparr>receiverURL = ''https://collector.example/bulk'', batchInterval = 5000,
         minBatchSize = 20, events = replicate 50 (ev_full 1) @ [ev_full 2, ev_full 3],
         isSendingEvents = True, lastScheduled = 1000,
         apiKey = Some ''key-1'', logger_level = Info\<rparr>,
       waiting = [\<lparr>bulk = replicate 50 (ev_full 1), attemptsLeft = 2\<rparr>], timers = 0\<rparr>,
      [LoggerDebug (LoggedEvent (JObject [(''id'', JString ''x'')])),
       LoggerDebug (ScheduledIn 5), SetTimeout 5000])"
    by (simp add: retrying_eq log_event_def push_event_eq maxUnsentEvents_def schedule_def
        trigger_def sendEvents_def configure_def opts_a_def or_number_def or_string_def
        ev_full_def)
  have c0: "target (fst (exec retrying [Log (ev_full 3) 1000000 1000000])) =
        \<lparr>receiverURL = ''http://localhost:8081/api/events/_bulk'', batchInterval = 5000,
         minBatchSize = 10, events = replicate 50 (ev_full 1) @ [ev_full 2, ev_full 3],
         isSendingEvents = True, lastScheduled = 1000,
         apiKey = Some ''key-1'', logger_level = Info\<rparr>"
    by (simp add: retrying_eq log_event_def push_event_eq maxUnsentEvents_def schedule_def
        trigger_def sendEvents_def ev_full_def)
  have c1: "target (fst (exec retrying [Log (ev_full 3) 1000000 1000000, Setup opts_a])) =
        \<lparr>receiverURL = ''https://collector.example/bulk'', batchInterval = 5000,
         minBatchSize = 20, events = replicate 50 (ev_full 1) @ [ev_full 2, ev_full 3],
         isSendingEvents = True, lastScheduled = 1000,
         apiKey = Some ''key-1'', logger_level = Info\<rparr>"
    by (simp add: retrying_eq log_event_def push_event_eq maxUnsentEvents_def schedule_def
        trigger_def sendEvents_def configure_def opts_a_def or_number_def or_string_def
        ev_full_def)
  from retries_exhausted [OF h, of fifty_one] have
    "filter is_post (snd (exec retrying
        ([Log (ev_full 3) 1000000 1000000] @ [Settles 0 Rejected] @ [Setup opts_a] @
         [Settles 0 Rejected] @ [TimerFires] @ [Settles 0 Rejected]))) =
      [AxiosPost (makeRequest_post
          (target (fst (exec retrying [Log (ev_full 3) 1000000 1000000])))
          (replicate 50 (ev_full 1))),
       AxiosPost (makeRequest_post
          (target (fst (exec retrying ([Log (ev_full 3) 1000000 1000000] @ [Setup opts_a]))))
          (replicate 50 (ev_full 1)))]"
    and "fst (exec retrying
        ([Log (ev_full 3) 1000000 1000000] @ [Settles 0 Rejected] @ [Setup opts_a] @
         [Settles 0 Rejected] @ [TimerFires] @ [Settles 0 Rejected])) =
      (fst (exec retrying ([Log (ev_full 3) 1000000 1000000] @ [Setup opts_a] @ [TimerFires])))
        \<lparr>target := (target (fst (exec retrying
              ([Log (ev_full 3) 1000000 1000000] @ [Setup opts_a] @ [TimerFires]))))
            \<lparr>isSendingEvents := False\<rparr>,
          waiting := []\<rparr>"
    by blast+
  then have
    "filter is_post (snd (exec retrying
        [Log (ev_full 3) 1000000 1000000, Settles 0 Rejected, Setup opts_a,
         Settles 0 Rejected, TimerFires, Settles 0 Rejected])) =
      [AxiosPost (makeRequest_post
          (target (fst (exec retrying [Log (ev_full 3) 1000000 1000000])))
          (replicate 50 (ev_full 1))),
       AxiosPost (makeRequest_post
          (target (fst (exec retrying [Log (ev_full 3) 1000000 1000000, Setup opts_a])))
          (replicate 50 (ev_full 1)))]"
    and "fst (exec retrying
        [Log (ev_full 3) 1000000 1000000, Settles 0 Rejected, Setup opts_a,
         Settles 0 Rejected, TimerFires, Settles 0 Rejected]) =
      (fst (exec retrying [Log (ev_full 3) 1000000 1000000, Setup opts_a, TimerFires]))
        \<lparr>target := (target (fst (exec retrying
              [Log (ev_full 3) 1000000 1000000, Setup opts_a, TimerFires])))
            \<lparr>isSendingEvents := False\<rparr>,
          waiting := []\<rparr>"
    by (simp_all only: append_Cons append_Nil)
  then show ?thesis
    by (simp only: c c0 c1) (simp add: makeRequest_post_def)
qed

section \<open>The request\<close>







lemma base64_length: "length (base64 bs) = 4 * ((length bs + 2) div 3)"
proof (induction bs rule: base64.induct)
  case (1 a b c rest)
  have "(5 + length rest) div 3 = Suc ((2 + length rest) div 3)" by arith
  with 1 show ?case by (simp add: Let_def)
qed (simp_all add: Let_def)



section \<open>Concrete runs\<close>

text \<open>The base64 test vectors of RFC 4648.\<close>

lemma base64_test_vectors:
  "base64 [] = ''''"
  "base64 [102] = ''Zg==''"
  "base64 [102, 111] = ''Zm8=''"
  "base64 [102, 111, 111] = ''Zm9v''"
  "base64 [102, 111, 111, 98] = ''Zm9vYg==''"
  "base64 [102, 111, 111, 98, 97] = ''Zm9vYmE=''"
  "base64 [102, 111, 111, 98, 97, 114] = ''Zm9vYmFy''"
  "base64 [255, 255, 254] = ''///+''"
  by (simp_all add: b64c_def)

text \<open>
  The run \<open>third_time_lucky\<close>, from the construction of the logger: the two events are
  requested three times and removed after the third request, the cycle ends with the
  message of a failed batch, and the event logged meanwhile stays in the buffer of an idle
  logger, with no request for it.
\<close>

lemma third_time_lucky_run:
  "fst (exec (start opts_two) third_time_lucky) =
     \<lparr>target = (constructor opts_two)\<lparr>events := [ev_full 3], lastScheduled := 1000\<rparr>,
      waiting = [], timers = 1\<rparr> \<and>
   filter is_post (snd (exec (start opts_two) third_time_lucky)) =
     replicate 3 (AxiosPost (makeRequest_post (constructor opts_two) [ev_full 1, ev_full 2])) \<and>
   last (snd (exec (start opts_two) third_time_lucky)) = LoggerDebug (RetriedFailed 3)"
  by (simp add: third_time_lucky_def start_def constructor_opts_two log_event_def push_event_eq
      maxUnsentEvents_def schedule_def trigger_def sendEvents_def maxAttempts_def
      maxBulkSize_def ev_full_def makeRequest_post_def resume_def makeRequest_settled_def
      makeRequest_call_def eval_nat_numeral)

text \<open>
  The run \<open>overlap\<close>: the timer fires while the request of the size trigger is in
  flight, and issues nothing.
\<close>

lemma timer_during_cycle:
  "filter is_post (snd (exec (start opts_two) overlap)) =
     [AxiosPost (makeRequest_post (constructor opts_two) [ev_full 1, ev_full 2])] \<and>
   waiting (fst (exec (start opts_two) overlap)) =
     [\<lparr>bulk = [ev_full 1, ev_full 2], attemptsLeft = 2\<rparr>] \<and>
   timers (fst (exec (start opts_two) overlap)) = 0"
  by (simp add: overlap_def start_def constructor_opts_two log_event_def push_event_eq
      maxUnsentEvents_def schedule_def trigger_def sendEvents_def maxAttempts_def
      maxBulkSize_def ev_full_def makeRequest_post_def makeRequest_call_def)

end
